theory Spec2Isabelle
  imports Main "HOL-Library.Word" "HOL-Library.Multiset"
begin

section \<open>The fan-out/fan-in pipeline of precode.go and precode1.go\<close>

text \<open>
  The repository holds three drafts of one Go program. precode.go merges the worker
  outputs with one goroutine per output and counts the items of output \<open>i\<close> in that
  goroutine (\<open>amounts[i]++\<close> after \<open>chOut <- num\<close>); its result channel has capacity
  \<open>NumOut\<close>. precode1.go (and the unnamed third file, which is the same code with
  review comments) merges with a single goroutine that ranges over \<open>outs\<close> in order,
  counts in the worker (\<open>*amounts++\<close> after the sleep) and has an unbuffered result
  channel. \<open>Generator\<close>, the completion watcher, the collecting loop of \<open>main\<close> and the
  final checks are the same in all drafts.

  Goroutines are modelled by an interleaving semantics: a state holds the program counter
  of every goroutine, the channels and the variables of \<open>main\<close>; an action is one atomic
  move of one goroutine (a rendezvous on an unbuffered channel moves sender and receiver
  together); a schedule is a list of actions. The timeout and the sleep carry no duration:
  \<open>Timeout\<close> may happen at any moment and \<open>Sleep\<close> returns at any moment, which covers
  every positive timeout and every non-negative delay. A panic of the Go runtime (close of
  a closed channel, send on a closed channel, negative WaitGroup counter, index out of
  range) is a result of the step function, so that its absence is a theorem.
\<close>

type_synonym int64 = "64 word"

datatype variant = Concurrent | Sequential

text \<open>
  Program counters. \<open>Generator\<close>: at the \<open>select\<close>, between \<open>chIn <- i\<close> and
  \<open>fn(i)\<close>, returned. \<open>Worker\<close>: at \<open>range in\<close>, at \<open>out <- i\<close> holding
  \<open>i\<close>, in \<open>time.Sleep\<close>, at \<open>*amounts++\<close> (precode1.go only), after
  \<open>close(out)\<close>. Merging goroutine: at \<open>range outs[k]\<close>, at \<open>chOut <- num\<close>, at
  \<open>amounts[k]++\<close> (precode.go only), finished. Watcher: in \<open>wg.Wait()\<close>, at
  \<open>close(chOut)\<close>, finished. \<open>main\<close>: in \<open>for i := range chOut\<close>, past it.
\<close>

datatype gen_pc = GSelect | GCallback | GReturned
datatype worker_pc = WRange | WSend int64 | WSleep | WCount | WClosed
datatype merge_pc = MRange nat | MSend nat int64 | MCount nat | MDone
datatype watcher_pc = WaWait | WaClose | WaDone
datatype main_pc = CollectLoop | Drained

datatype panic = CloseOfClosedChannel | SendOnClosedChannel | NegativeWaitGroup | IndexOutOfRange
datatype fault = Blocked | Panic panic

record state =
  ctx_done :: bool
  g_pc :: gen_pc
  g_i :: int64
  chIn_closed :: bool
  inputSum :: int64
  inputCount :: int64
  workers :: "worker_pc list"
  outs_closed :: "bool list"
  amounts :: "int64 list"
  mergers :: "merge_pc list"
  wg :: int
  watcher :: watcher_pc
  chOut_cap :: nat
  chOut_buf :: "int64 list"
  chOut_closed :: bool
  main_at :: main_pc
  count_main :: int64
  sum_main :: int64
  published :: "int64 list"
  consumed :: "int64 list list"
  forwarded :: "int64 list list"
  collected :: "int64 list"

text \<open>The last four fields are history variables, read by no step: the items sent on
  \<open>chIn\<close>, the items each worker received from \<open>chIn\<close>, the items
  each worker sent on its \<open>out\<close>, and the items \<open>main\<close> received
  from \<open>chOut\<close>, each in order.\<close>

definition NumOut :: nat where
  "NumOut = 5"

text \<open>The state once \<open>main\<close> has started every goroutine, for
  \<open>n\<close> workers. Only channel and goroutine creation precede it, and a goroutine
  started early can only block on a partner that does not exist yet, as it blocks here on
  one that has not moved yet. precode.go: \<open>wg.Add(1)\<close> runs \<open>n\<close>
  times before the watcher starts, and \<open>chOut := make(chan int64, NumOut)\<close>.
  precode1.go: \<open>wg.Add(NumOut)\<close>, \<open>chOut := make(chan int64)\<close>, and
  one merging goroutine whose \<open>range outs\<close> ends at once when there is no
  output.\<close>

definition init :: "variant \<Rightarrow> nat \<Rightarrow> state" where
  "init v n = \<lparr>
     ctx_done = False, g_pc = GSelect, g_i = 1, chIn_closed = False,
     inputSum = 0, inputCount = 0,
     workers = replicate n WRange, outs_closed = replicate n False,
     amounts = replicate n 0,
     mergers = (case v of Concurrent \<Rightarrow> map MRange [0..<n]
                | Sequential \<Rightarrow> [if 0 < n then MRange 0 else MDone]),
     wg = int n, watcher = WaWait,
     chOut_cap = (case v of Concurrent \<Rightarrow> n | Sequential \<Rightarrow> 0),
     chOut_buf = [], chOut_closed = False,
     main_at = CollectLoop, count_main = 0, sum_main = 0,
     published = [], consumed = replicate n [], forwarded = replicate n [],
     collected = [] \<rparr>"

definition main_init :: "variant \<Rightarrow> state" where
  "main_init v = init v NumOut"

text \<open>The goroutine that receives from \<open>outs[k]\<close>: goroutine
  \<open>k\<close> in precode.go (\<open>go func(i int) { ... range outs[i] ...
  }(i)\<close>), the only one in precode1.go.\<close>

definition reader :: "variant \<Rightarrow> nat \<Rightarrow> nat" where
  "reader v k = (case v of Concurrent \<Rightarrow> k | Sequential \<Rightarrow> 0)"

datatype action =
    Timeout
  | Publish nat
  | Callback
  | Cancel
  | Forward nat
  | Sleep nat
  | Count nat
  | CloseOut nat
  | Emit nat
  | Tally nat
  | Finish nat
  | Release
  | CloseResult
  | Collect

text \<open>
  \<^item> \<open>Timeout\<close>: the deadline of \<open>context.WithTimeout\<close> passes;
    \<open>ctx.Done()\<close> is ready from then on.
  \<^item> \<open>Publish j\<close>: the \<open>select\<close> of \<open>Generator\<close> takes
    \<open>case chIn <- i\<close>, worker \<open>j\<close> being the receiver in \<open>range in\<close>. A ready
    \<open>ctx.Done()\<close> does not disable it: Go chooses among the ready cases at random.
  \<^item> \<open>Callback\<close>: \<open>fn(i); i++\<close>.
  \<^item> \<open>Cancel\<close>: the \<open>select\<close> takes \<open>case <-ctx.Done()\<close>:
    \<open>close(chIn); return\<close>.
  \<^item> \<open>Forward k\<close>: \<open>out <- i\<close> of worker \<open>k\<close> meets the receive of the
    goroutine that ranges over \<open>outs[k]\<close>.
  \<^item> \<open>Sleep k\<close>: \<open>time.Sleep(time.Millisecond)\<close> of worker \<open>k\<close> returns.
  \<^item> \<open>Count k\<close>: \<open>*amounts++\<close> of worker \<open>k\<close> (precode1.go).
  \<^item> \<open>CloseOut k\<close>: \<open>range in\<close> of worker \<open>k\<close> ends on the closed
    \<open>chIn\<close>; \<open>close(out)\<close>.
  \<^item> \<open>Emit m\<close>: \<open>chOut <- num\<close> of merging goroutine \<open>m\<close>; on an
    unbuffered \<open>chOut\<close> it meets the receive of \<open>main\<close>, which does
    \<open>count++; sum += i\<close>.
  \<^item> \<open>Tally m\<close>: \<open>amounts[i]++\<close> of merging goroutine \<open>m\<close> (precode.go).
  \<^item> \<open>Finish m\<close>: the \<open>range\<close> of merging goroutine \<open>m\<close> ends on its
    closed output; \<open>wg.Done()\<close>; precode1.go then goes on to the next output.
  \<^item> \<open>Release\<close>: \<open>wg.Wait()\<close> returns. \<open>CloseResult\<close>:
    \<open>close(chOut)\<close>.
  \<^item> \<open>Collect\<close>: \<open>main\<close> takes the next item out of the buffer of
    \<open>chOut\<close> (\<open>count++; sum += i\<close>), or leaves the loop when \<open>chOut\<close> is
    closed and empty.
\<close>

text \<open>\<open>Generator\<close> (precode.go 18 to 34, precode1.go 11 to 23): the \<open>select\<close> with its
  two cases, and the callback after a send.\<close>

fun Generator :: "action \<Rightarrow> state \<Rightarrow> fault + state" where
  "Generator (Publish j) s =
     (if g_pc s \<noteq> GSelect then Inl Blocked
      else if chIn_closed s then Inl (Panic SendOnClosedChannel)
      else if length (workers s) \<le> j \<or> workers s ! j \<noteq> WRange then Inl Blocked
      else Inr (s\<lparr>g_pc := GCallback,
                  workers := (workers s)[j := WSend (g_i s)],
                  published := published s @ [g_i s],
                  consumed := (consumed s)[j := consumed s ! j @ [g_i s]]\<rparr>))"
| "Generator Callback s =
     (if g_pc s \<noteq> GCallback then Inl Blocked
      else Inr (s\<lparr>inputSum := inputSum s + g_i s,
                  inputCount := inputCount s + 1,
                  g_i := g_i s + 1,
                  g_pc := GSelect\<rparr>))"
| "Generator Cancel s =
     (if g_pc s \<noteq> GSelect \<or> \<not> ctx_done s then Inl Blocked
      else if chIn_closed s then Inl (Panic CloseOfClosedChannel)
      else Inr (s\<lparr>chIn_closed := True, g_pc := GReturned\<rparr>))"
| "Generator a s = Inl Blocked"

text \<open>\<open>Worker\<close> (precode.go 37 to 45; precode1.go 25 to 32, with the counter): the send
  on \<open>out\<close>, then the sleep, then in precode1.go the increment; \<open>close(out)\<close> when
  \<open>range in\<close> ends.\<close>

fun Worker :: "variant \<Rightarrow> action \<Rightarrow> state \<Rightarrow> fault + state" where
  "Worker v (Forward k) s =
     (if length (workers s) \<le> k then Inl Blocked
      else case workers s ! k of
        WSend x \<Rightarrow>
          (if outs_closed s ! k then Inl (Panic SendOnClosedChannel)
           else if length (mergers s) \<le> reader v k
                   \<or> mergers s ! reader v k \<noteq> MRange k then Inl Blocked
           else Inr (s\<lparr>workers := (workers s)[k := WSleep],
                       mergers := (mergers s)[reader v k := MSend k x],
                       forwarded := (forwarded s)[k := forwarded s ! k @ [x]]\<rparr>))
      | _ \<Rightarrow> Inl Blocked)"
| "Worker v (Sleep k) s =
     (if length (workers s) \<le> k \<or> workers s ! k \<noteq> WSleep then Inl Blocked
      else Inr (s\<lparr>workers := (workers s)
                    [k := (case v of Concurrent \<Rightarrow> WRange | Sequential \<Rightarrow> WCount)]\<rparr>))"
| "Worker v (Count k) s =
     (if length (workers s) \<le> k \<or> workers s ! k \<noteq> WCount then Inl Blocked
      else if length (amounts s) \<le> k then Inl (Panic IndexOutOfRange)
      else Inr (s\<lparr>amounts := (amounts s)[k := amounts s ! k + 1],
                  workers := (workers s)[k := WRange]\<rparr>))"
| "Worker v (CloseOut k) s =
     (if length (workers s) \<le> k \<or> workers s ! k \<noteq> WRange \<or> \<not> chIn_closed s
      then Inl Blocked
      else if length (outs_closed s) \<le> k then Inl (Panic IndexOutOfRange)
      else if outs_closed s ! k then Inl (Panic CloseOfClosedChannel)
      else Inr (s\<lparr>outs_closed := (outs_closed s)[k := True],
                  workers := (workers s)[k := WClosed]\<rparr>))"
| "Worker v a s = Inl Blocked"

text \<open>The merging goroutines of \<open>main\<close> (precode.go 93 to 102: one per output, with
  \<open>amounts[i]++\<close> after the send; precode1.go 63 to 70: one for all outputs in turn,
  \<open>wg.Done()\<close> after each).\<close>

fun main_merge :: "variant \<Rightarrow> action \<Rightarrow> state \<Rightarrow> fault + state" where
  "main_merge v (Emit m) s =
     (if length (mergers s) \<le> m then Inl Blocked
      else case mergers s ! m of
        MSend k x \<Rightarrow>
          (let after = (case v of Concurrent \<Rightarrow> MCount k | Sequential \<Rightarrow> MRange k) in
           if chOut_closed s then Inl (Panic SendOnClosedChannel)
           else if chOut_cap s = 0 then
             (if main_at s \<noteq> CollectLoop then Inl Blocked
              else Inr (s\<lparr>mergers := (mergers s)[m := after],
                          count_main := count_main s + 1,
                          sum_main := sum_main s + x,
                          collected := collected s @ [x]\<rparr>))
           else if chOut_cap s \<le> length (chOut_buf s) then Inl Blocked
           else Inr (s\<lparr>mergers := (mergers s)[m := after],
                       chOut_buf := chOut_buf s @ [x]\<rparr>))
      | _ \<Rightarrow> Inl Blocked)"
| "main_merge v (Tally m) s =
     (if length (mergers s) \<le> m then Inl Blocked
      else case mergers s ! m of
        MCount k \<Rightarrow>
          (if length (amounts s) \<le> k then Inl (Panic IndexOutOfRange)
           else Inr (s\<lparr>amounts := (amounts s)[k := amounts s ! k + 1],
                       mergers := (mergers s)[m := MRange k]\<rparr>))
      | _ \<Rightarrow> Inl Blocked)"
| "main_merge v (Finish m) s =
     (if length (mergers s) \<le> m then Inl Blocked
      else case mergers s ! m of
        MRange k \<Rightarrow>
          (if length (outs_closed s) \<le> k then Inl (Panic IndexOutOfRange)
           else if \<not> outs_closed s ! k then Inl Blocked
           else if wg s - 1 < 0 then Inl (Panic NegativeWaitGroup)
           else Inr (s\<lparr>wg := wg s - 1,
                       mergers := (mergers s)
                         [m := (case v of Concurrent \<Rightarrow> MDone
                                | Sequential \<Rightarrow>
                                    if Suc k < length (outs_closed s)
                                    then MRange (Suc k) else MDone)]\<rparr>))
      | _ \<Rightarrow> Inl Blocked)"
| "main_merge v a s = Inl Blocked"

text \<open>The watcher \<open>go func() { wg.Wait(); close(chOut) }()\<close> (precode.go 107 to 110,
  precode1.go 73 to 76).\<close>

fun main_wait :: "action \<Rightarrow> state \<Rightarrow> fault + state" where
  "main_wait Release s =
     (if watcher s \<noteq> WaWait \<or> wg s \<noteq> 0 then Inl Blocked
      else Inr (s\<lparr>watcher := WaClose\<rparr>))"
| "main_wait CloseResult s =
     (if watcher s \<noteq> WaClose then Inl Blocked
      else if chOut_closed s then Inl (Panic CloseOfClosedChannel)
      else Inr (s\<lparr>chOut_closed := True, watcher := WaDone\<rparr>))"
| "main_wait a s = Inl Blocked"

text \<open>The loop \<open>for i := range chOut { count++; sum += i }\<close> of \<open>main\<close> (precode.go
  117 to 120, precode1.go 82 to 85).\<close>

fun main_collect :: "state \<Rightarrow> fault + state" where
  "main_collect s =
     (if main_at s \<noteq> CollectLoop then Inl Blocked
      else case chOut_buf s of
        x # xs \<Rightarrow> Inr (s\<lparr>chOut_buf := xs,
                         count_main := count_main s + 1,
                         sum_main := sum_main s + x,
                         collected := collected s @ [x]\<rparr>)
      | [] \<Rightarrow> (if chOut_closed s then Inr (s\<lparr>main_at := Drained\<rparr>) else Inl Blocked))"

text \<open>One step of the program: the action names the goroutine that moves.\<close>

fun step :: "variant \<Rightarrow> action \<Rightarrow> state \<Rightarrow> fault + state" where
  "step v Timeout s =
     (if ctx_done s then Inl Blocked else Inr (s\<lparr>ctx_done := True\<rparr>))"
| "step v (Publish j) s = Generator (Publish j) s"
| "step v Callback s = Generator Callback s"
| "step v Cancel s = Generator Cancel s"
| "step v (Forward k) s = Worker v (Forward k) s"
| "step v (Sleep k) s = Worker v (Sleep k) s"
| "step v (Count k) s = Worker v (Count k) s"
| "step v (CloseOut k) s = Worker v (CloseOut k) s"
| "step v (Emit m) s = main_merge v (Emit m) s"
| "step v (Tally m) s = main_merge v (Tally m) s"
| "step v (Finish m) s = main_merge v (Finish m) s"
| "step v Release s = main_wait Release s"
| "step v CloseResult s = main_wait CloseResult s"
| "step v Collect s = main_collect s"

text \<open>A schedule runs action by action and stops at the first action that is not enabled
  or panics.\<close>

fun exec :: "variant \<Rightarrow> action list \<Rightarrow> state \<Rightarrow> fault + state" where
  "exec v [] s = Inr s"
| "exec v (a # as) s = (case step v a s of Inl e \<Rightarrow> Inl e | Inr s' \<Rightarrow> exec v as s')"

subsection \<open>The report and the checks at the end of main\<close>

text \<open>The three \<open>fmt.Println\<close> lines print \<open>inputCount
  count\<close>, \<open>inputSum sum\<close> and \<open>amounts\<close>. Each
  \<open>log.Fatalf\<close> ends the process with its own message; the first two print the
  two numbers compared.\<close>

record report =
  shown_inputCount :: int64
  shown_count :: int64
  shown_inputSum :: int64
  shown_sum :: int64
  shown_amounts :: "int64 list"

datatype fatal = SumsDiffer int64 int64 | CountsDiffer int64 int64 | SplitWrong

text \<open>\<open>verify\<close> is lines 127 to 138 of precode.go (92 to 104 of
  precode1.go). On a normal end it returns the value that the variable
  \<open>inputCount\<close> holds after the loop \<open>for _, v := range amounts {
  inputCount -= v }\<close>.\<close>

definition verify :: "int64 \<Rightarrow> int64 \<Rightarrow> int64 \<Rightarrow> int64 \<Rightarrow> int64 list \<Rightarrow> fatal + int64" where
  "verify iSum sm iCount cnt amts =
     (if iSum \<noteq> sm then Inl (SumsDiffer iSum sm)
      else if iCount \<noteq> cnt then Inl (CountsDiffer iCount cnt)
      else (let iCount' = foldl (\<lambda>acc v. acc - v) iCount amts
            in if iCount' \<noteq> 0 then Inl SplitWrong else Inr iCount'))"

definition main_tail :: "state \<Rightarrow> report \<times> (fatal + int64)" where
  "main_tail s =
     (\<lparr>shown_inputCount = inputCount s, shown_count = count_main s,
       shown_inputSum = inputSum s, shown_sum = sum_main s,
       shown_amounts = amounts s\<rparr>,
      verify (inputSum s) (sum_main s) (inputCount s) (count_main s) (amounts s))"

section \<open>What the final checks compute\<close>

text \<open>The subtraction loop leaves \<open>inputCount\<close> minus the sum of
  \<open>amounts\<close>, so the third check compares that sum with
  \<open>inputCount\<close>.\<close>

lemma foldl_minus_sum_list: "foldl (\<lambda>acc v. acc - v) a xs = a - sum_list xs" for a :: int64
  by (induction xs arbitrary: a) (simp_all add: algebra_simps)

lemma verify_eq:
  "verify iSum sm iCount cnt amts =
     (if iSum \<noteq> sm then Inl (SumsDiffer iSum sm)
      else if iCount \<noteq> cnt then Inl (CountsDiffer iCount cnt)
      else if sum_list amts \<noteq> iCount then Inl SplitWrong
      else Inr 0)"
  by (auto simp: verify_def foldl_minus_sum_list Let_def)

section \<open>Invariants of the control flow\<close>

text \<open>The slices and the channel capacity keep the sizes \<open>main\<close> gave
  them: one entry per worker, one merging goroutine per output in precode.go and a single
  one in precode1.go.\<close>

definition n_mergers :: "variant \<Rightarrow> nat \<Rightarrow> nat" where
  "n_mergers v n = (case v of Concurrent \<Rightarrow> n | Sequential \<Rightarrow> 1)"

definition result_cap :: "variant \<Rightarrow> nat \<Rightarrow> nat" where
  "result_cap v n = (case v of Concurrent \<Rightarrow> n | Sequential \<Rightarrow> 0)"

definition shape :: "variant \<Rightarrow> state \<Rightarrow> bool" where
  "shape v s \<longleftrightarrow>
     length (outs_closed s) = length (workers s) \<and>
     length (amounts s) = length (workers s) \<and>
     length (consumed s) = length (workers s) \<and>
     length (forwarded s) = length (workers s) \<and>
     length (mergers s) = n_mergers v (length (workers s)) \<and>
     chOut_cap s = result_cap v (length (workers s))"

lemma shape_init: "shape v (init v n)"
  by (cases v) (simp_all add: shape_def init_def n_mergers_def result_cap_def)

lemma step_length_workers: "step v a s = Inr s' \<Longrightarrow> length (workers s') = length (workers s)"
  by (cases a) (auto simp: Let_def split: if_splits worker_pc.splits merge_pc.splits list.splits)

lemma shape_step: "step v a s = Inr s' \<Longrightarrow> shape v s \<Longrightarrow> shape v s'"
  by (cases a) (auto simp: shape_def Let_def split: if_splits worker_pc.splits merge_pc.splits list.splits)


lemma sum_list_map_update:
  fixes f :: "'a \<Rightarrow> 'b::comm_monoid_add"
  shows "m < length xs \<Longrightarrow> sum_list (map f (xs[m := p])) + f (xs ! m) = sum_list (map f xs) + f p"
proof (induction xs arbitrary: m)
  case Nil
  then show ?case by simp
next
  case (Cons x xs)
  show ?case
  proof (cases m)
    case 0
    then show ?thesis by (simp add: ac_simps)
  next
    case (Suc m')
    with Cons.prems have "m' < length xs" by simp
    from Cons.IH [OF this] have "sum_list (map f (xs[m' := p])) + f (xs ! m') = sum_list (map f xs) + f p" .
    then show ?thesis using Suc by (simp add: add.assoc)
  qed
qed

text \<open>\<open>chIn\<close> is closed exactly when \<open>Generator\<close> has
  returned; \<open>outs[k]\<close> is closed exactly when worker \<open>k\<close> has
  returned, which needs \<open>chIn\<close> closed.\<close>

definition gen_ok :: "state \<Rightarrow> bool" where
  "gen_ok s \<longleftrightarrow>
     (chIn_closed s \<longleftrightarrow> g_pc s = GReturned) \<and>
     (\<forall>k<length (workers s). outs_closed s ! k \<longleftrightarrow> workers s ! k = WClosed) \<and>
     (\<forall>k<length (workers s). workers s ! k = WClosed \<longrightarrow> chIn_closed s) \<and>
     (g_pc s = GCallback \<longrightarrow> workers s \<noteq> [])"

lemma gen_ok_init: "gen_ok (init v n)"
  by (simp add: gen_ok_def init_def)

lemma gen_ok_step: "step v a s = Inr s' \<Longrightarrow> shape v s \<Longrightarrow> gen_ok s \<Longrightarrow> gen_ok s'"
  by (cases a) (auto simp: gen_ok_def shape_def Let_def nth_list_update
      split: if_splits worker_pc.splits merge_pc.splits list.splits variant.splits)

text \<open>Which output a merging goroutine is at. In precode.go goroutine \<open>m\<close>
  stays on \<open>outs[m]\<close> and finishes only when it is closed. In precode1.go the
  goroutine is on \<open>outs[k]\<close> only when all earlier outputs are closed, and
  finishes when all are.\<close>

fun drains :: "variant \<Rightarrow> nat \<Rightarrow> bool list \<Rightarrow> nat \<Rightarrow> nat \<Rightarrow> bool" where
  "drains Concurrent n oc m k = (k = m)"
| "drains Sequential n oc m k = (k < n \<and> (\<forall>i<k. oc ! i))"

fun merge_ok :: "variant \<Rightarrow> nat \<Rightarrow> bool list \<Rightarrow> nat \<Rightarrow> merge_pc \<Rightarrow> bool" where
  "merge_ok v n oc m (MRange k) = drains v n oc m k"
| "merge_ok v n oc m (MSend k x) = drains v n oc m k"
| "merge_ok v n oc m (MCount k) = (v = Concurrent \<and> k = m)"
| "merge_ok Concurrent n oc m MDone = oc ! m"
| "merge_ok Sequential n oc m MDone = (\<forall>i<n. oc ! i)"

definition mergers_ok :: "variant \<Rightarrow> state \<Rightarrow> bool" where
  "mergers_ok v s \<longleftrightarrow>
     (\<forall>m<length (mergers s).
        merge_ok v (length (workers s)) (outs_closed s) m (mergers s ! m))"

lemma mergers_ok_init: "mergers_ok v (init v n)"
  by (cases v) (auto simp: mergers_ok_def init_def)

lemma nth_update_True: "oc ! i \<Longrightarrow> oc[k := True] ! i"
  by (cases "k < length oc"; cases "i = k") (simp_all add: not_less list_update_beyond)

lemma all_closed_upto:
  "\<forall>i<k. P i \<Longrightarrow> P k \<Longrightarrow> \<not> Suc k < n \<Longrightarrow> i < n \<Longrightarrow> P (i::nat)"
  by (cases "i < k"; cases "i = k") auto


lemma merge_ok_close:
  "merge_ok v n oc m p \<Longrightarrow> merge_ok v n (oc[k := True]) m p"
  by (cases v; cases p) (auto simp: nth_update_True)

lemma mergers_okD:
  "mergers_ok v s \<Longrightarrow> mergers s ! m = p \<Longrightarrow> m < length (mergers s) \<Longrightarrow>
   merge_ok v (length (workers s)) (outs_closed s) m p"
  by (auto simp: mergers_ok_def)

lemma mergers_okI:
  "(\<And>m. m < length (mergers s) \<Longrightarrow>
      merge_ok v (length (workers s)) (outs_closed s) m (mergers s ! m)) \<Longrightarrow> mergers_ok v s"
  by (auto simp: mergers_ok_def)

lemma mergers_ok_step:
  assumes "step v a s = Inr s'" "shape v s" "gen_ok s" "mergers_ok v s"
  shows "mergers_ok v s'"
proof (rule mergers_okI)
  fix m assume m: "m < length (mergers s')"
  have D: "\<And>m. m < length (mergers s) \<Longrightarrow>
      merge_ok v (length (workers s)) (outs_closed s) m (mergers s ! m)"
    using assms(4) by (simp add: mergers_ok_def)
  show "merge_ok v (length (workers s')) (outs_closed s') m (mergers s' ! m)"
  proof (cases a)
    case (Finish j)
    then show ?thesis using assms(1-2) m D [of m] D [of j]
      by (cases v) (auto simp: shape_def n_mergers_def nth_list_update less_Suc_eq not_le
          split: if_splits merge_pc.splits elim: all_closed_upto)
  next
    case (Forward k)
    then show ?thesis using assms(1-3) m D [of m] D [of "reader v k"]
      by (cases v) (auto simp: shape_def n_mergers_def reader_def nth_list_update not_le
          split: if_splits merge_pc.splits worker_pc.splits)
  next
    case (Emit j)
    then show ?thesis using assms(1-3) m D [of m] D [of j]
      by (cases v) (auto simp: shape_def n_mergers_def Let_def nth_list_update not_le
          split: if_splits merge_pc.splits)
  next
    case (Tally j)
    then show ?thesis using assms(1-3) m D [of m] D [of j]
      by (cases v) (auto simp: shape_def n_mergers_def nth_list_update not_le
          split: if_splits merge_pc.splits)
  next
    case (CloseOut k)
    then show ?thesis using assms(1-3) m D [of m]
      by (auto simp: merge_ok_close split: if_splits)
  qed (use assms(1) m D [of m] in \<open>auto split: if_splits list.splits\<close>)
qed

text \<open>The WaitGroup counter is the number of \<open>wg.Done()\<close> calls still to
  come: one for each unfinished goroutine in precode.go, one for each output not yet drained
  to its end in precode1.go. The watcher passes \<open>wg.Wait()\<close> only at zero,
  \<open>chOut\<close> is closed exactly when the watcher has finished, and
  \<open>main\<close> leaves its loop only on the closed and empty channel.\<close>

fun owed :: "variant \<Rightarrow> nat \<Rightarrow> merge_pc \<Rightarrow> nat" where
  "owed Concurrent n MDone = 0"
| "owed Concurrent n p = 1"
| "owed Sequential n (MRange k) = n - k"
| "owed Sequential n (MSend k x) = n - k"
| "owed Sequential n p = 0"

definition wg_ok :: "variant \<Rightarrow> state \<Rightarrow> bool" where
  "wg_ok v s \<longleftrightarrow>
     wg s = int (sum_list (map (owed v (length (workers s))) (mergers s))) \<and>
     (watcher s \<noteq> WaWait \<longrightarrow> wg s = 0) \<and>
     (chOut_closed s \<longleftrightarrow> watcher s = WaDone) \<and>
     (main_at s = Drained \<longrightarrow> chOut_closed s \<and> chOut_buf s = [])"

lemma owed_Concurrent_init: "sum_list (map (owed Concurrent n \<circ> MRange) xs) = length xs"
  by (induction xs) simp_all

lemma wg_ok_init: "wg_ok v (init v n)"
  by (cases v) (auto simp: wg_ok_def init_def owed_Concurrent_init)

lemma wg_ok_step:
  assumes "step v a s = Inr s'" "shape v s" "mergers_ok v s" "wg_ok v s"
  shows "wg_ok v s'"
proof -
  let ?n = "length (workers s)"
  have D: "\<And>m. m < length (mergers s) \<Longrightarrow> merge_ok v ?n (outs_closed s) m (mergers s ! m)"
    using assms(3) by (simp add: mergers_ok_def)
  have U: "\<And>m p. m < length (mergers s) \<Longrightarrow>
      sum_list (map (owed v ?n) ((mergers s)[m := p])) + owed v ?n (mergers s ! m)
      = sum_list (map (owed v ?n) (mergers s)) + owed v ?n p"
    by (rule sum_list_map_update)
  show ?thesis
  proof (cases a)
    case (Finish j)
    then show ?thesis using assms(1,2,4) D [of j] U [of j MDone] U [of j "MRange (Suc (case mergers s ! j of MRange k \<Rightarrow> k | _ \<Rightarrow> 0))"]
      by (cases v) (auto simp: wg_ok_def shape_def n_mergers_def not_le
          split: if_splits merge_pc.splits)
  next
    case (Forward k)
    then show ?thesis using assms(1,2,4) D [of "reader v k"] U [of "reader v k" "MSend k (case workers s ! k of WSend x \<Rightarrow> x | _ \<Rightarrow> 0)"]
      by (cases v) (auto simp: wg_ok_def shape_def n_mergers_def reader_def not_le
          split: if_splits merge_pc.splits worker_pc.splits)
  next
    case (Emit j)
    then show ?thesis using assms(1,2,4) D [of j]
        U [of j "MCount (case mergers s ! j of MSend k x \<Rightarrow> k | _ \<Rightarrow> 0)"]
        U [of j "MRange (case mergers s ! j of MSend k x \<Rightarrow> k | _ \<Rightarrow> 0)"]
      by (cases v) (auto simp: wg_ok_def shape_def n_mergers_def Let_def not_le
          split: if_splits merge_pc.splits)
  next
    case (Tally j)
    then show ?thesis using assms(1,2,4) D [of j]
        U [of j "MRange (case mergers s ! j of MCount k \<Rightarrow> k | _ \<Rightarrow> 0)"]
      by (cases v) (auto simp: wg_ok_def shape_def n_mergers_def not_le
          split: if_splits merge_pc.splits)
  qed (use assms(1,4) in \<open>auto simp: wg_ok_def split: if_splits list.splits\<close>)
qed

definition ctrl :: "variant \<Rightarrow> state \<Rightarrow> bool" where
  "ctrl v s \<longleftrightarrow> shape v s \<and> gen_ok s \<and> mergers_ok v s \<and> wg_ok v s"

lemma ctrl_init: "ctrl v (init v n)"
  by (simp add: ctrl_def shape_init gen_ok_init mergers_ok_init wg_ok_init)

lemma ctrl_step: "step v a s = Inr s' \<Longrightarrow> ctrl v s \<Longrightarrow> ctrl v s'"
  by (simp add: ctrl_def shape_step gen_ok_step mergers_ok_step wg_ok_step)

text \<open>At counter zero every merging goroutine has finished and every worker has closed
  its output; when \<open>main\<close> has left its loop nothing is in flight any more.\<close>

lemma owed_le_wg:
  assumes "wg_ok v s" "m < length (mergers s)"
  shows "int (owed v (length (workers s)) (mergers s ! m)) \<le> wg s"
proof -
  have "owed v (length (workers s)) (mergers s ! m)
        \<in> set (map (owed v (length (workers s))) (mergers s))"
    using assms(2) by simp
  then have "owed v (length (workers s)) (mergers s ! m)
        \<le> sum_list (map (owed v (length (workers s))) (mergers s))"
    by (simp add: member_le_sum_list)
  then show ?thesis using assms(1) by (simp add: wg_ok_def)
qed

lemma owed_pos:
  "merge_ok v n oc m p \<Longrightarrow> p \<noteq> MDone \<Longrightarrow> 0 < owed v n p"
  by (cases v; cases p) auto

lemma released_all_done:
  assumes "ctrl v s" "wg s = 0" "m < length (mergers s)"
  shows "mergers s ! m = MDone"
proof (rule ccontr)
  assume "mergers s ! m \<noteq> MDone"
  moreover have "merge_ok v (length (workers s)) (outs_closed s) m (mergers s ! m)"
    using assms(1,3) by (simp add: ctrl_def mergers_ok_def)
  ultimately have "0 < owed v (length (workers s)) (mergers s ! m)"
    by (rule owed_pos [rotated])
  moreover have "int (owed v (length (workers s)) (mergers s ! m)) \<le> wg s"
    using assms(1,3) by (simp add: ctrl_def owed_le_wg)
  ultimately show False using assms(2) by simp
qed

lemma released_all_closed:
  assumes "ctrl v s" "wg s = 0" "k < length (workers s)"
  shows "outs_closed s ! k" and "workers s ! k = WClosed"
proof -
  have len: "length (mergers s) = n_mergers v (length (workers s))"
    using assms(1) by (simp add: ctrl_def shape_def)
  have M: "\<And>m. m < length (mergers s) \<Longrightarrow>
      merge_ok v (length (workers s)) (outs_closed s) m MDone"
    using assms(1,2) released_all_done [OF assms(1,2)]
    by (auto simp: ctrl_def mergers_ok_def)
  show c: "outs_closed s ! k"
  proof (cases v)
    case Concurrent
    then show ?thesis using M [of k] len assms(3) by (simp add: n_mergers_def)
  next
    case Sequential
    then show ?thesis using M [of 0] len assms(3) by (simp add: n_mergers_def)
  qed
  then show "workers s ! k = WClosed"
    using assms(1,3) by (simp add: ctrl_def gen_ok_def)
qed

lemma drained_quiescent:
  assumes "ctrl v s" "main_at s = Drained"
  shows "wg s = 0" and "chOut_buf s = []" and "chOut_closed s" and "g_pc s \<noteq> GCallback"
proof -
  have w: "wg_ok v s" and g: "gen_ok s" using assms(1) by (simp_all add: ctrl_def)
  show z: "wg s = 0" and "chOut_buf s = []" and "chOut_closed s"
    using w assms(2) by (auto simp: wg_ok_def)
  show "g_pc s \<noteq> GCallback"
  proof
    assume c: "g_pc s = GCallback"
    then have "0 < length (workers s)" using g by (simp add: gen_ok_def)
    then have "workers s ! 0 = WClosed" by (rule released_all_closed(2) [OF assms(1) z])
    then have "chIn_closed s" using g \<open>0 < length (workers s)\<close> by (auto simp: gen_ok_def)
    then show False using g c by (simp add: gen_ok_def)
  qed
qed

text \<open>No step of a state that satisfies the invariants panics.\<close>

lemma no_panic_step:
  assumes "ctrl v s"
  shows "step v a s \<noteq> Inl (Panic p)"
proof -
  have sh: "shape v s" and g: "gen_ok s" and w: "wg_ok v s"
    using assms by (simp_all add: ctrl_def)
  have D: "\<And>m. m < length (mergers s) \<Longrightarrow>
      merge_ok v (length (workers s)) (outs_closed s) m (mergers s ! m)"
    using assms by (simp add: ctrl_def mergers_ok_def)
  show ?thesis
  proof (cases a)
    case (Emit m)
    show ?thesis
    proof (cases "chOut_closed s \<and> m < length (mergers s)")
      case True
      then have "wg s = 0" using w by (auto simp: wg_ok_def)
      then have "mergers s ! m = MDone" using True released_all_done [OF assms] by simp
      then show ?thesis using Emit True by simp
    next
      case False
      then show ?thesis using Emit by (auto simp: Let_def split: merge_pc.splits)
    qed
  next
    case (Finish m)
    show ?thesis
    proof (cases "m < length (mergers s)")
      case True
      show ?thesis using Finish True D [of m] owed_le_wg [OF w True] sh
        by (cases v) (auto simp: shape_def n_mergers_def split: merge_pc.splits)
    next
      case False
      then show ?thesis using Finish by simp
    qed
  next
    case (Tally m)
    then show ?thesis using D [of m] sh
      by (cases v) (auto simp: shape_def n_mergers_def not_le split: merge_pc.splits)
  next
    case (Forward k)
    then show ?thesis using g by (auto simp: gen_ok_def split: worker_pc.splits)
  next
    case (CloseOut k)
    then show ?thesis using g sh by (auto simp: gen_ok_def shape_def)
  next
    case (Count k)
    then show ?thesis using sh by (auto simp: shape_def)
  next
    case CloseResult
    then show ?thesis using w by (auto simp: wg_ok_def)
  qed (use g in \<open>auto simp: gen_ok_def split: list.splits\<close>)
qed

lemma exec_append:
  "exec v (as @ bs) s = (case exec v as s of Inl e \<Rightarrow> Inl e | Inr s' \<Rightarrow> exec v bs s')"
  by (induction as arbitrary: s) (auto split: sum.splits)

lemma exec_snoc_Inr:
  "exec v (as @ [a]) s = Inr s' \<longleftrightarrow> (\<exists>t. exec v as s = Inr t \<and> step v a t = Inr s')"
  by (auto simp: exec_append split: sum.splits)

lemma ctrl_exec: "exec v sched s = Inr s' \<Longrightarrow> ctrl v s \<Longrightarrow> ctrl v s'"
  by (induction sched arbitrary: s) (auto split: sum.splits dest: ctrl_step)

lemma no_panic_exec: "ctrl v s \<Longrightarrow> exec v sched s \<noteq> Inl (Panic p)"
proof (induction sched arbitrary: s)
  case Nil
  then show ?case by simp
next
  case (Cons a as)
  show ?case
  proof (cases "step v a s")
    case (Inl e)
    then show ?thesis using no_panic_step [OF Cons.prems, of a p] by auto
  next
    case (Inr t)
    then have "ctrl v t" using Cons.prems by (rule ctrl_step)
    then show ?thesis using Inr Cons.IH by simp
  qed
qed

section \<open>Invariants of the data\<close>

text \<open>\<open>Generator\<close> has sent \<open>1, 2, ...\<close> in order; between a
  send and its callback the tallies lag by the item just sent. Every item sent was received
  by one worker.\<close>

definition gen_data :: "state \<Rightarrow> bool" where
  "gen_data s \<longleftrightarrow>
     (\<forall>i<length (published s). published s ! i = of_nat (Suc i)) \<and>
     g_i s = of_nat (length (published s)) + (if g_pc s = GCallback then 0 else 1) \<and>
     inputCount s + (if g_pc s = GCallback then 1 else 0) = of_nat (length (published s)) \<and>
     inputSum s + (if g_pc s = GCallback then g_i s else 0) = sum_list (published s) \<and>
     sum_list (map length (consumed s)) = length (published s)"

lemma sum_list_replicate_0: "sum_list (map f (replicate n x)) = n * f x" for f :: "'a \<Rightarrow> nat"
  by (induction n) simp_all

lemma gen_data_init: "gen_data (init v n)"
  by (simp add: gen_data_def init_def sum_list_replicate_0)

lemma sum_list_map_update_zero:
  fixes f :: "'a \<Rightarrow> 'b::cancel_comm_monoid_add"
  assumes "m < length xs" "f (xs ! m) = 0"
  shows "sum_list (map f (xs[m := p])) = sum_list (map f xs) + f p"
  using sum_list_map_update [OF assms(1), of f p] assms(2) by simp

lemma sum_list_map_update_to_zero:
  fixes f :: "'a \<Rightarrow> 'b::cancel_comm_monoid_add"
  assumes "m < length xs" "f p = 0"
  shows "sum_list (map f xs) = sum_list (map f (xs[m := p])) + f (xs ! m)"
  using sum_list_map_update [OF assms(1), of f p] assms(2) by simp

lemma sum_list_length_snoc:
  "j < length xs \<Longrightarrow> sum_list (map length (xs[j := xs ! j @ [x]])) = Suc (sum_list (map length xs))"
  using sum_list_map_update [of j xs length "xs ! j @ [x]"] by simp

lemma gen_data_step: "step v a s = Inr s' \<Longrightarrow> shape v s \<Longrightarrow> gen_data s \<Longrightarrow> gen_data s'"
  by (cases a) (auto simp: gen_data_def shape_def Let_def sum_list_length_snoc nth_append less_Suc_eq
      split: if_splits worker_pc.splits merge_pc.splits list.splits)

text \<open>\<open>count\<close> and \<open>sum\<close> are the number and the sum of the
  items \<open>main\<close> received.\<close>

definition main_data :: "state \<Rightarrow> bool" where
  "main_data s \<longleftrightarrow>
     count_main s = of_nat (length (collected s)) \<and> sum_main s = sum_list (collected s)"

lemma main_data_init: "main_data (init v n)"
  by (simp add: main_data_def init_def)

lemma main_data_step: "step v a s = Inr s' \<Longrightarrow> main_data s \<Longrightarrow> main_data s'"
  by (cases a) (auto simp: main_data_def Let_def
      split: if_splits worker_pc.splits merge_pc.splits list.splits)

text \<open>Conservation: every item sent on \<open>chIn\<close> is in exactly one place:
  received by \<open>main\<close>, in the buffer of \<open>chOut\<close>, held by a worker
  at \<open>out <- i\<close>, or held by a merging goroutine at \<open>chOut <- num\<close>.\<close>

fun heldw :: "worker_pc \<Rightarrow> int64 multiset" where
  "heldw (WSend x) = {#x#}"
| "heldw p = {#}"

fun heldm :: "merge_pc \<Rightarrow> int64 multiset" where
  "heldm (MSend k x) = {#x#}"
| "heldm p = {#}"

definition conserved :: "state \<Rightarrow> bool" where
  "conserved s \<longleftrightarrow>
     mset (published s) =
       mset (collected s) + mset (chOut_buf s)
       + sum_list (map heldw (workers s)) + sum_list (map heldm (mergers s))"

lemma sum_list_replicate_empty: "sum_list (replicate n ({#}::'a multiset)) = {#}"
  by (induction n) simp_all

lemma heldm_init: "sum_list (map (heldm \<circ> MRange) xs) = {#}"
  by (induction xs) simp_all

lemma conserved_init: "conserved (init v n)"
  by (cases v) (simp_all add: conserved_def init_def sum_list_replicate_empty heldm_init)

lemma conserved_step:
  assumes "step v a s = Inr s'" "shape v s" "conserved s"
  shows "conserved s'"
proof (cases a)
  case (Forward k)
  from assms(1) Forward obtain x where
    k: "k < length (workers s)" and wk: "workers s ! k = WSend x" and
    r: "reader v k < length (mergers s)" and mr: "mergers s ! reader v k = MRange k" and
    s': "s' = s\<lparr>workers := (workers s)[k := WSleep],
                 mergers := (mergers s)[reader v k := MSend k x],
                 forwarded := (forwarded s)[k := forwarded s ! k @ [x]]\<rparr>"
    by (auto split: if_splits worker_pc.splits)
  have w: "sum_list (map heldw (workers s))
           = sum_list (map heldw ((workers s)[k := WSleep])) + {#x#}"
    using sum_list_map_update_to_zero [of k "workers s" heldw WSleep] k wk by simp
  have m: "sum_list (map heldm ((mergers s)[reader v k := MSend k x]))
           = sum_list (map heldm (mergers s)) + {#x#}"
    using sum_list_map_update_zero [of "reader v k" "mergers s" heldm "MSend k x"] r mr by simp
  show ?thesis using assms(3) by (simp add: conserved_def s' w m)
next
  case (Emit m)
  from assms(1) Emit obtain k x where
    m: "m < length (mergers s)" and mm: "mergers s ! m = MSend k x"
    by (auto split: if_splits merge_pc.splits)
  define after where "after = (case v of Concurrent \<Rightarrow> MCount k | Sequential \<Rightarrow> MRange k)"
  have h0: "heldm after = {#}" by (cases v) (simp_all add: after_def)
  have e: "sum_list (map heldm (mergers s))
           = sum_list (map heldm ((mergers s)[m := after])) + {#x#}"
    using sum_list_map_update_to_zero [of m "mergers s" heldm after] m mm h0 by simp
  from assms(1) Emit m mm have
    "s' = s\<lparr>mergers := (mergers s)[m := after], count_main := count_main s + 1,
            sum_main := sum_main s + x, collected := collected s @ [x]\<rparr>
     \<or> s' = s\<lparr>mergers := (mergers s)[m := after], chOut_buf := chOut_buf s @ [x]\<rparr>"
    by (auto simp: Let_def after_def split: if_splits)
  then show ?thesis using assms(3) by (auto simp: conserved_def e)
qed (use assms in \<open>auto simp: conserved_def shape_def sum_list_map_update_zero
       split: if_splits worker_pc.splits merge_pc.splits list.splits variant.splits\<close>)

text \<open>A worker has sent on its output what it received, in order, but for the item it
  holds.\<close>

fun in_hand :: "worker_pc \<Rightarrow> int64 list" where
  "in_hand (WSend x) = [x]"
| "in_hand p = []"

definition hist_ok :: "state \<Rightarrow> bool" where
  "hist_ok s \<longleftrightarrow>
     (\<forall>k<length (workers s). consumed s ! k = forwarded s ! k @ in_hand (workers s ! k))"

lemma hist_ok_init: "hist_ok (init v n)"
  by (simp add: hist_ok_def init_def)

lemma hist_ok_step: "step v a s = Inr s' \<Longrightarrow> shape v s \<Longrightarrow> hist_ok s \<Longrightarrow> hist_ok s'"
  by (cases a) (auto simp: hist_ok_def shape_def Let_def nth_list_update
      split: if_splits worker_pc.splits merge_pc.splits list.splits variant.splits)

text \<open>\<open>amounts[k]\<close> is the number of items sent on \<open>outs[k]\<close>,
  less the one whose increment is still to come: in precode.go while the merging goroutine
  holds the item or stands before \<open>amounts[i]++\<close>, in precode1.go while the
  worker sleeps or stands before \<open>*amounts++\<close>.\<close>

fun pendw :: "worker_pc \<Rightarrow> int64" where
  "pendw WSleep = 1"
| "pendw WCount = 1"
| "pendw p = 0"

fun pendm :: "merge_pc \<Rightarrow> int64" where
  "pendm (MSend k x) = 1"
| "pendm (MCount k) = 1"
| "pendm p = 0"

definition tally_ok :: "variant \<Rightarrow> state \<Rightarrow> bool" where
  "tally_ok v s \<longleftrightarrow>
     (v = Concurrent \<longrightarrow>
        (\<forall>k<length (workers s). workers s ! k \<noteq> WCount \<and>
           amounts s ! k = of_nat (length (forwarded s ! k)) - pendm (mergers s ! k))) \<and>
     (v = Sequential \<longrightarrow>
        (\<forall>k<length (workers s).
           amounts s ! k = of_nat (length (forwarded s ! k)) - pendw (workers s ! k)))"

lemma tally_ok_init: "tally_ok v (init v n)"
  by (cases v) (simp_all add: tally_ok_def init_def)

lemma step_merger_index:
  "step v (Finish j) s = Inr s' \<Longrightarrow> j < length (mergers s)"
  "step v (Emit j) s = Inr s' \<Longrightarrow> j < length (mergers s)"
  "step v (Tally j) s = Inr s' \<Longrightarrow> j < length (mergers s)"
  by (auto split: if_splits)

lemma step_worker_index:
  "step v (Forward k) s = Inr s' \<Longrightarrow> k < length (workers s)"
  "step v (Publish k) s = Inr s' \<Longrightarrow> k < length (workers s)"
  "step v (Sleep k) s = Inr s' \<Longrightarrow> k < length (workers s)"
  "step v (Count k) s = Inr s' \<Longrightarrow> k < length (workers s)"
  "step v (CloseOut k) s = Inr s' \<Longrightarrow> k < length (workers s)"
  by (auto split: if_splits)

lemma tally_ok_step_Concurrent:
  assumes "step Concurrent a s = Inr s'" "shape Concurrent s" "mergers_ok Concurrent s"
    "tally_ok Concurrent s"
  shows "tally_ok Concurrent s'"
proof -
  have len: "length (mergers s) = length (workers s)"
    using assms(2) by (simp add: shape_def n_mergers_def)
  have D: "\<And>m. m < length (workers s) \<Longrightarrow>
      merge_ok Concurrent (length (workers s)) (outs_closed s) m (mergers s ! m)"
    using assms(3) len by (simp add: mergers_ok_def)
  show ?thesis
  proof (cases a)
    case (Finish j)
    then have j: "j < length (workers s)" using assms(1) step_merger_index(1) len by metis
    show ?thesis using Finish assms(1,2,4) D [OF j]
      by (auto simp: tally_ok_def shape_def nth_list_update split: if_splits merge_pc.splits)
  next
    case (Forward k)
    then have k: "k < length (workers s)" using assms(1) step_worker_index(1) by metis
    show ?thesis using Forward assms(1,2,4)
      by (auto simp: tally_ok_def shape_def reader_def nth_list_update
          split: if_splits merge_pc.splits worker_pc.splits)
  next
    case (Emit j)
    then have j: "j < length (workers s)" using assms(1) step_merger_index(2) len by metis
    show ?thesis using Emit assms(1,2,4) D [OF j]
      by (auto simp: tally_ok_def shape_def Let_def nth_list_update
          split: if_splits merge_pc.splits)
  next
    case (Tally j)
    then have j: "j < length (workers s)" using assms(1) step_merger_index(3) len by metis
    show ?thesis using Tally assms(1,2,4) D [OF j]
      by (auto simp: tally_ok_def shape_def nth_list_update
          split: if_splits merge_pc.splits)
  qed (use assms(1,2,4) in \<open>auto simp: tally_ok_def shape_def nth_list_update
         split: if_splits list.splits\<close>)
qed

lemma tally_ok_step_Sequential:
  assumes "step Sequential a s = Inr s'" "shape Sequential s" "mergers_ok Sequential s"
    "tally_ok Sequential s"
  shows "tally_ok Sequential s'"
proof -
  have D: "\<And>m. m < length (mergers s) \<Longrightarrow>
      merge_ok Sequential (length (workers s)) (outs_closed s) m (mergers s ! m)"
    using assms(3) by (simp add: mergers_ok_def)
  show ?thesis
  proof (cases a)
    case (Forward k)
    then have k: "k < length (workers s)" using assms(1) step_worker_index(1) by metis
    show ?thesis using Forward assms(1,2,4)
      by (auto simp: tally_ok_def shape_def reader_def nth_list_update
          split: if_splits merge_pc.splits worker_pc.splits)
  next
    case (Sleep k)
    then have k: "k < length (workers s)" using assms(1) step_worker_index(3) by metis
    show ?thesis using Sleep assms(1,2,4)
      by (auto simp: tally_ok_def shape_def nth_list_update split: if_splits)
  next
    case (Count k)
    then have k: "k < length (workers s)" using assms(1) step_worker_index(4) by metis
    show ?thesis using Count assms(1,2,4)
      by (auto simp: tally_ok_def shape_def nth_list_update split: if_splits)
  next
    case (Tally j)
    then have j: "j < length (mergers s)" using assms(1) step_merger_index(3) by metis
    show ?thesis using Tally assms(1,2) D [OF j]
      by (auto simp: shape_def n_mergers_def split: if_splits merge_pc.splits)
  qed (use assms(1,2,4) in \<open>auto simp: tally_ok_def shape_def nth_list_update Let_def
         split: if_splits list.splits merge_pc.splits\<close>)
qed

lemma tally_ok_step:
  "step v a s = Inr s' \<Longrightarrow> shape v s \<Longrightarrow> mergers_ok v s \<Longrightarrow> tally_ok v s \<Longrightarrow> tally_ok v s'"
  by (cases v) (simp_all add: tally_ok_step_Concurrent tally_ok_step_Sequential)

section \<open>Every run keeps the invariants\<close>

definition invariant :: "variant \<Rightarrow> state \<Rightarrow> bool" where
  "invariant v s \<longleftrightarrow>
     ctrl v s \<and> gen_data s \<and> main_data s \<and> conserved s \<and> hist_ok s \<and> tally_ok v s"

lemma invariant_init: "invariant v (init v n)"
  by (simp add: invariant_def ctrl_init gen_data_init main_data_init conserved_init
      hist_ok_init tally_ok_init)

lemma invariant_step: "step v a s = Inr s' \<Longrightarrow> invariant v s \<Longrightarrow> invariant v s'"
  unfolding invariant_def
  by (blast intro: ctrl_step gen_data_step main_data_step conserved_step
      hist_ok_step tally_ok_step dest: ctrl_def [THEN iffD1])

lemma invariant_exec: "exec v sched s = Inr s' \<Longrightarrow> invariant v s \<Longrightarrow> invariant v s'"
  by (induction sched arbitrary: s) (auto split: sum.splits dest: invariant_step)

lemma invariant_run: "exec v sched (init v n) = Inr s \<Longrightarrow> invariant v s"
  by (erule invariant_exec) (rule invariant_init)

lemma run_induct [consumes 1, case_names Start Step]:
  assumes "exec v sched s0 = Inr s"
    and "P [] s0"
    and "\<And>as a t t'. exec v as s0 = Inr t \<Longrightarrow> P as t \<Longrightarrow> step v a t = Inr t'
           \<Longrightarrow> P (as @ [a]) t'"
  shows "P sched s"
  using assms(1)
proof (induction sched arbitrary: s rule: rev_induct)
  case Nil
  then show ?case using assms(2) by simp
next
  case (snoc a as)
  then obtain t where t: "exec v as s0 = Inr t" and st: "step v a t = Inr s"
    by (auto simp: exec_snoc_Inr)
  from snoc.IH [OF t] have "P as t" .
  then show ?case using t st assms(3) by blast
qed

section \<open>The state in which main leaves its loop\<close>

lemma all_MDone_no_held:
  "(\<And>m. m < length ms \<Longrightarrow> ms ! m = MDone) \<Longrightarrow> sum_list (map heldm ms) = {#}"
proof (induction ms)
  case Nil
  then show ?case by simp
next
  case (Cons p ms)
  have "p = MDone" using Cons.prems [of 0] by simp
  moreover have "sum_list (map heldm ms) = {#}"
  proof (rule Cons.IH)
    fix m assume "m < length ms"
    then show "ms ! m = MDone" using Cons.prems [of "Suc m"] by simp
  qed
  ultimately show ?case by simp
qed

lemma all_WClosed_no_held:
  "(\<And>k. k < length ws \<Longrightarrow> ws ! k = WClosed) \<Longrightarrow> sum_list (map heldw ws) = {#}"
proof (induction ws)
  case Nil
  then show ?case by simp
next
  case (Cons p ws)
  have "p = WClosed" using Cons.prems [of 0] by simp
  moreover have "sum_list (map heldw ws) = {#}"
  proof (rule Cons.IH)
    fix k assume "k < length ws"
    then show "ws ! k = WClosed" using Cons.prems [of "Suc k"] by simp
  qed
  ultimately show ?case by simp
qed

lemma drained_collected_all:
  assumes "invariant v s" "main_at s = Drained"
  shows "mset (collected s) = mset (published s)"
proof -
  have c: "ctrl v s" using assms(1) by (simp add: invariant_def)
  note q = drained_quiescent [OF c assms(2)]
  have "sum_list (map heldm (mergers s)) = {#}"
    by (rule all_MDone_no_held) (rule released_all_done [OF c q(1)])
  moreover have "sum_list (map heldw (workers s)) = {#}"
    by (rule all_WClosed_no_held) (rule released_all_closed(2) [OF c q(1)])
  ultimately show ?thesis using assms(1) q(2) by (simp add: invariant_def conserved_def)
qed

lemma drained_amounts:
  assumes "invariant v s" "main_at s = Drained"
  shows "amounts s = map (\<lambda>xs. of_nat (length xs)) (consumed s)"
proof (rule nth_equalityI)
  have c: "ctrl v s" using assms(1) by (simp add: invariant_def)
  then have sh: "shape v s" by (simp add: ctrl_def)
  show "length (amounts s) = length (map (\<lambda>xs. of_nat (length xs)) (consumed s))"
    using sh by (simp add: shape_def)
  fix k assume "k < length (amounts s)"
  then have k: "k < length (workers s)" using sh by (simp add: shape_def)
  note q = drained_quiescent [OF c assms(2)]
  have w: "workers s ! k = WClosed" by (rule released_all_closed(2) [OF c q(1) k])
  have "length (mergers s) = n_mergers v (length (workers s))" using sh by (simp add: shape_def)
  then have m: "v = Concurrent \<Longrightarrow> mergers s ! k = MDone"
    using released_all_done [OF c q(1), of k] k by (simp add: n_mergers_def)
  have h: "consumed s ! k = forwarded s ! k"
    using assms(1) k w by (simp add: invariant_def hist_ok_def)
  have "amounts s ! k = of_nat (length (forwarded s ! k))"
    using assms(1) k w m by (cases v) (simp_all add: invariant_def tally_ok_def)
  then show "amounts s ! k = map (\<lambda>xs. of_nat (length xs)) (consumed s) ! k"
    using h k sh by (simp add: shape_def)
qed

lemma sum_list_of_nat_length:
  "sum_list (map (\<lambda>xs. of_nat (length xs)) xss) = (of_nat (sum_list (map length xss)) :: int64)"
  by (induction xss) simp_all

lemma sum_list_mset_eq:
  fixes xs ys :: "int64 list"
  shows "mset xs = mset ys \<Longrightarrow> sum_list xs = sum_list ys"
  by (metis sum_mset_sum_list)

lemma drained_tallies:
  assumes "invariant v s" "main_at s = Drained"
  shows "inputCount s = count_main s" and "inputSum s = sum_main s"
    and "sum_list (amounts s) = inputCount s"
proof -
  have c: "ctrl v s" and g: "gen_data s" and m: "main_data s"
    using assms(1) by (simp_all add: invariant_def)
  note q = drained_quiescent [OF c assms(2)]
  have e: "mset (collected s) = mset (published s)" by (rule drained_collected_all [OF assms])
  then have l: "length (collected s) = length (published s)" by (rule mset_eq_length)
  have ic: "inputCount s = of_nat (length (published s))"
    using g q(4) by (simp add: gen_data_def)
  show "inputCount s = count_main s" using ic m l by (simp add: main_data_def)
  show "inputSum s = sum_main s"
    using g q(4) m sum_list_mset_eq [OF e] by (simp add: gen_data_def main_data_def)
  show "sum_list (amounts s) = inputCount s"
    using drained_amounts [OF assms] g ic by (simp add: sum_list_of_nat_length gen_data_def)
qed

subsection \<open>A complete run of each draft\<close>

text \<open>Two items are generated before the timeout. In the run of precode.go workers 0 and
  1 take one item each and every item is merged at once; in the run of precode1.go worker 1
  takes the first item and has to keep it until \<open>outs[0]\<close> is closed.\<close>

definition demo_run :: "variant \<Rightarrow> action list" where
  "demo_run v = (case v of
     Concurrent \<Rightarrow>
       [Publish 0, Callback, Forward 0, Emit 0, Tally 0, Sleep 0,
        Publish 1, Callback, Forward 1, Emit 1, Tally 1, Sleep 1,
        Timeout, Cancel,
        CloseOut 0, CloseOut 1, CloseOut 2, CloseOut 3, CloseOut 4,
        Finish 0, Finish 1, Finish 2, Finish 3, Finish 4,
        Release, CloseResult, Collect, Collect, Collect]
   | Sequential \<Rightarrow>
       [Publish 1, Callback, Publish 0, Callback, Forward 0, Emit 0, Sleep 0, Count 0,
        Timeout, Cancel,
        CloseOut 0, Finish 0, Forward 1, Emit 0, Sleep 1, Count 1,
        CloseOut 1, CloseOut 2, CloseOut 3, CloseOut 4,
        Finish 0, Finish 0, Finish 0, Finish 0,
        Release, CloseResult, Collect])"

definition demo_end :: "variant \<Rightarrow> state" where
  "demo_end v = projr (exec v (demo_run v) (main_init v))"

lemma demo_runs:
  "exec v (demo_run v) (init v 5) = Inr (demo_end v)"
proof -
  have "\<not> isl (exec v (demo_run v) (main_init v))"
    by (cases v) (simp_all, code_simp+)
  then show ?thesis by (simp add: demo_end_def main_init_def NumOut_def)
qed

lemma demo_end_drained: "main_at (demo_end v) = Drained"
  by (cases v) (simp_all, code_simp+)

lemma demo_end_tallies:
  "inputCount (demo_end Concurrent) = 2" "count_main (demo_end Concurrent) = 2"
  "inputSum (demo_end Concurrent) = 3" "sum_main (demo_end Concurrent) = 3"
  "amounts (demo_end Concurrent) = [1, 1, 0, 0, 0]"
  "inputCount (demo_end Sequential) = 2" "count_main (demo_end Sequential) = 2"
  "inputSum (demo_end Sequential) = 3" "sum_main (demo_end Sequential) = 3"
  "amounts (demo_end Sequential) = [1, 1, 0, 0, 0]"
  by code_simp+

section \<open>Facts about the items, the schedule and each goroutine\<close>

lemma sint_of_nat_small: "n < 2 ^ 63 \<Longrightarrow> sint (of_nat n :: int64) = int n"
  by (simp add: signed_of_nat signed_take_bit_int_eq_self)

lemma unat_of_nat_small: "n < 2 ^ 63 \<Longrightarrow> unat (of_nat n :: int64) = n"
proof -
  assume "n < 2 ^ 63"
  then have "n < 2 ^ 64" by simp
  then show ?thesis by (simp add: unat_of_nat)
qed

lemma published_eq:
  assumes "gen_data s"
  shows "published s = map of_nat [1..<Suc (length (published s))]"
proof (rule nth_equalityI)
  show "length (published s) = length (map of_nat [1..<Suc (length (published s))] :: int64 list)"
    by (simp del: upt_Suc)
  fix i assume i: "i < length (published s)"
  then have "[1..<Suc (length (published s))] ! i = 1 + i" by (intro nth_upt) simp
  moreover have "i < length [1..<Suc (length (published s))]" using i by simp
  ultimately have "map of_nat [1..<Suc (length (published s))] ! i = (of_nat (Suc i) :: int64)"
    by (simp only: nth_map plus_1_eq_Suc)
  then show "published s ! i = map of_nat [1..<Suc (length (published s))] ! i"
    using assms i by (simp add: gen_data_def)
qed

lemma collected_sub_published:
  "conserved s \<Longrightarrow> mset (collected s) \<subseteq># mset (published s)"
  by (simp add: conserved_def add.assoc)

lemma published_bounds:
  assumes "gen_data s" "length (published s) < 2 ^ 63" "x \<in> set (published s)"
  shows "0 < sint x \<and> sint x \<le> sint (last (published s))"
proof -
  let ?n = "length (published s)"
  from assms(3) obtain i where i: "i < ?n" and x: "x = published s ! i"
    by (auto simp: in_set_conv_nth)
  have xi: "x = of_nat (Suc i)" using assms(1) i x by (simp add: gen_data_def)
  have "Suc i < 2 ^ 63" using i assms(2) by simp
  then have sx: "sint x = int (Suc i)" unfolding xi by (rule sint_of_nat_small)
  have ne: "published s \<noteq> []" using i by auto
  then have "last (published s) = published s ! (?n - 1)" by (rule last_conv_nth)
  also have "\<dots> = of_nat (Suc (?n - 1))" using assms(1) i by (simp add: gen_data_def)
  also have "\<dots> = of_nat ?n" using i by simp
  finally have "sint (last (published s)) = int ?n"
    using assms(2) by (simp add: sint_of_nat_small)
  then show ?thesis using sx i by simp
qed

lemma demo_end_items:
  "published (demo_end Sequential) = [1, 2]" "collected (demo_end Sequential) = [2, 1]"
  "published (demo_end Concurrent) = [1, 2]" "collected (demo_end Concurrent) = [1, 2]"
  by code_simp+

lemma count_list_snoc: "count_list (xs @ [a]) b = count_list xs b + (if a = b then 1 else 0)"
  by (induction xs) simp_all

lemma close_result_count:
  assumes "exec v sched (init v n) = Inr s"
  shows "count_list sched CloseResult = (if watcher s = WaDone then 1 else 0)"
  using assms
proof (induction rule: run_induct)
  case Start
  then show ?case by (simp add: init_def)
next
  case (Step as a t t')
  then show ?case
    by (cases a) (auto simp: count_list_snoc Let_def
        split: if_splits worker_pc.splits merge_pc.splits list.splits)
qed

lemma demo_end_closed: "chOut_closed (demo_end v)"
  by (cases v) (simp_all, code_simp+)

fun is_Publish :: "action \<Rightarrow> bool" where
  "is_Publish (Publish j) = True"
| "is_Publish a = False"

lemma generator_counts:
  assumes "exec v sched (init v n) = Inr s"
  shows "count_list sched Cancel = (if g_pc s = GReturned then 1 else 0)
         \<and> (chIn_closed s \<longrightarrow> ctx_done s)
         \<and> length (published s) = count_list sched Callback + (if g_pc s = GCallback then 1 else 0)
         \<and> length (published s) = length (filter is_Publish sched)"
  using assms
proof (induction rule: run_induct)
  case Start
  then show ?case by (simp add: init_def)
next
  case (Step as a t t')
  have "gen_ok t" using invariant_run [OF Step(1)] by (simp add: invariant_def ctrl_def)
  then have "chIn_closed t \<longleftrightarrow> g_pc t = GReturned" by (simp add: gen_ok_def)
  with Step show ?case
    by (cases a) (auto simp: count_list_snoc Let_def
        split: if_splits worker_pc.splits merge_pc.splits list.splits)
qed

lemma returned_step:
  assumes "step v a s = Inr s'" "g_pc s = GReturned"
  shows "g_pc s' = GReturned \<and> a \<noteq> Cancel \<and> a \<noteq> Callback \<and> \<not> is_Publish a"
  using assms
  by (cases a) (auto simp: Let_def split: if_splits worker_pc.splits merge_pc.splits list.splits)

lemma returned_exec:
  "exec v post s = Inr s' \<Longrightarrow> g_pc s = GReturned \<Longrightarrow>
   \<forall>a \<in> set post. a \<noteq> Cancel \<and> a \<noteq> Callback \<and> \<not> is_Publish a"
proof (induction post arbitrary: s)
  case Nil
  then show ?case by simp
next
  case (Cons a post)
  from Cons.prems(1) obtain t where st: "step v a s = Inr t" and ex: "exec v post t = Inr s'"
    by (auto split: sum.splits)
  from returned_step [OF st Cons.prems(2)] Cons.IH [OF ex] show ?case by simp
qed

lemma nothing_after_cancel:
  assumes "exec v (pre @ Cancel # post) s0 = Inr s"
  shows "\<forall>a \<in> set post. a \<noteq> Cancel \<and> a \<noteq> Callback \<and> \<not> is_Publish a"
proof -
  from assms obtain t where "exec v pre s0 = Inr t" and r: "exec v (Cancel # post) t = Inr s"
    by (auto simp: exec_append split: sum.splits)
  from r obtain t' where c: "step v Cancel t = Inr t'" and p: "exec v post t' = Inr s"
    by (auto split: sum.splits)
  from c have "g_pc t' = GReturned" by (auto split: if_splits)
  with p show ?thesis by (rule returned_exec)
qed

lemma demo_end_generator:
  "g_pc (demo_end v) = GReturned" "chIn_closed (demo_end v)" "ctx_done (demo_end v)"
  by (cases v; simp; code_simp)+

lemma sum_list_take_Suc:
  fixes xs :: "int64 list"
  shows "c < length xs \<Longrightarrow> sum_list (take (Suc c) xs) = sum_list (take c xs) + xs ! c"
  by (simp add: take_Suc_conv_app_nth)

lemma demo_run_counts:
  "count_list (demo_run Sequential) Callback = 2"
  "length (filter is_Publish (demo_run Sequential)) = 2"
  by code_simp+

fun busy_m :: "merge_pc \<Rightarrow> nat" where
  "busy_m (MSend k x) = 1"
| "busy_m (MCount k) = 1"
| "busy_m p = 0"

lemma pendm_busy_m: "pendm p = of_nat (busy_m p)"
  by (cases p) simp_all

lemma run_length_workers:
  "exec v sched (init v n) = Inr s \<Longrightarrow> length (workers s) = n"
proof (induction rule: run_induct)
  case Start
  then show ?case by (simp add: init_def)
next
  case (Step as a t t')
  then show ?case by (simp add: step_length_workers)
qed

lemma worker_counts:
  assumes "exec v sched (init v n) = Inr s" and "k < n"
  shows "length (consumed s ! k) = count_list sched (Publish k)
         \<and> length (forwarded s ! k) = count_list sched (Forward k)
         \<and> count_list sched (Forward k)
             = count_list sched (Sleep k) + (if workers s ! k = WSleep then 1 else 0)
         \<and> count_list sched (CloseOut k) = (if workers s ! k = WClosed then 1 else 0)"
  using assms(1)
proof (induction rule: run_induct)
  case Start
  then show ?case using assms(2) by (simp add: init_def)
next
  case (Step as a t t')
  have sh: "shape v t" using invariant_run [OF Step.hyps(1)] by (simp add: invariant_def ctrl_def)
  have n: "length (workers t) = n" using Step.hyps(1) by (rule run_length_workers)
  show ?case using Step.IH Step.hyps(2) sh n assms(2)
    by (cases a) (auto simp: count_list_snoc Let_def shape_def nth_list_update
        split: if_splits worker_pc.splits merge_pc.splits list.splits variant.splits)
qed

lemma worker_counts_Sequential:
  assumes "exec Sequential sched (init Sequential n) = Inr s" and "k < n"
  shows "count_list sched (Sleep k)
         = count_list sched (Count k) + (if workers s ! k = WCount then 1 else 0)"
  using assms(1)
proof (induction rule: run_induct)
  case Start
  then show ?case using assms(2) by (simp add: init_def)
next
  case (Step as a t t')
  have n: "length (workers t) = n" using Step.hyps(1) by (rule run_length_workers)
  show ?case using Step.IH Step.hyps(2) n assms(2)
    by (cases a) (auto simp: count_list_snoc Let_def nth_list_update
        split: if_splits worker_pc.splits merge_pc.splits list.splits)
qed

lemma worker_counts_Concurrent:
  assumes "exec Concurrent sched (init Concurrent n) = Inr s" and "k < n"
  shows "workers s ! k \<noteq> WCount \<and> count_list sched (Count k) = 0
         \<and> length (forwarded s ! k) = count_list sched (Tally k) + busy_m (mergers s ! k)"
  using assms(1)
proof (induction rule: run_induct)
  case Start
  then show ?case using assms(2) by (simp add: init_def)
next
  case (Step as a t t')
  have sh: "shape Concurrent t"
    using invariant_run [OF Step.hyps(1)] by (simp add: invariant_def ctrl_def)
  have n: "length (workers t) = n" using Step.hyps(1) by (rule run_length_workers)
  show ?case using Step.IH Step.hyps(2) sh n assms(2)
    by (cases a) (auto simp: count_list_snoc Let_def shape_def n_mergers_def reader_def
        nth_list_update split: if_splits worker_pc.splits merge_pc.splits list.splits)
qed

lemma pendw_cases:
  "pendw p = (if p = WSleep \<or> p = WCount then 1 else 0)"
  by (cases p) simp_all

lemma demo_end_worker:
  "consumed (demo_end Sequential) ! Suc 0 = [1]" "forwarded (demo_end Sequential) ! Suc 0 = [1]"
  "workers (demo_end Sequential) ! Suc 0 = WClosed" "amounts (demo_end Sequential) ! Suc 0 = 1"
  "count_list (demo_run Sequential) (Publish (Suc 0)) = Suc 0"
  "count_list (demo_run Sequential) (Forward (Suc 0)) = Suc 0"
  "count_list (demo_run Sequential) (Sleep (Suc 0)) = Suc 0"
  "count_list (demo_run Sequential) (Count (Suc 0)) = Suc 0"
  "count_list (demo_run Sequential) (CloseOut (Suc 0)) = Suc 0"
  by code_simp+

definition early_run :: "action list" where
  "early_run = [Publish 0, Callback, Forward 0]"

definition stalled_run :: "action list" where
  "stalled_run = [Publish 1, Callback, Forward 1]"

text \<open>The difference between the drafts: in precode1.go a worker can hand over an item only
  when every earlier output is closed; in precode.go whenever its own merging goroutine is
  ready.\<close>

lemma sequential_drains_in_order:
  assumes "exec Sequential sched (init Sequential n) = Inr s"
    and "step Sequential (Forward k) s = Inr s'"
  shows "\<forall>i<k. outs_closed s ! i \<and> workers s ! i = WClosed"
proof -
  have c: "ctrl Sequential s" using assms(1) ctrl_init by (rule ctrl_exec)
  from assms(2) have k: "k < length (workers s)" by (rule step_worker_index(1))
  from assms(2) have m: "0 < length (mergers s)" "mergers s ! 0 = MRange k"
    by (auto simp: reader_def split: if_splits worker_pc.splits)
  have "merge_ok Sequential (length (workers s)) (outs_closed s) 0 (mergers s ! 0)"
    using c m(1) by (simp add: ctrl_def mergers_ok_def)
  then have "\<forall>i<k. outs_closed s ! i" using m(2) by simp
  then show ?thesis using c k by (auto simp: ctrl_def gen_ok_def)
qed

lemma concurrent_drains_independently:
  assumes "exec Concurrent sched (init Concurrent n) = Inr s" and "k < n"
    and "workers s ! k = WSend x" and "mergers s ! k = MRange k"
  shows "\<not> isl (step Concurrent (Forward k) s)"
proof -
  have c: "ctrl Concurrent s" using assms(1) ctrl_init by (rule ctrl_exec)
  have n: "length (workers s) = n" using assms(1) by (rule run_length_workers)
  then show ?thesis using c assms(2-4)
    by (auto simp: ctrl_def shape_def gen_ok_def n_mergers_def reader_def)
qed

text \<open>No deadlock, in either draft: as long as \<open>main\<close> is in its loop some
  goroutine can move (at the latest the timeout).\<close>

lemma all_MDone_no_owed:
  "(\<And>m. m < length ms \<Longrightarrow> ms ! m = MDone) \<Longrightarrow> sum_list (map (owed v n) ms) = 0"
proof (induction ms)
  case Nil
  then show ?case by simp
next
  case (Cons p ms)
  have "p = MDone" using Cons.prems [of 0] by simp
  then have "owed v n p = 0" by (cases v) simp_all
  moreover have "sum_list (map (owed v n) ms) = 0"
  proof (rule Cons.IH)
    fix m assume "m < length ms"
    then show "ms ! m = MDone" using Cons.prems [of "Suc m"] by simp
  qed
  ultimately show ?case by simp
qed

lemma progress_step:
  assumes c: "ctrl v s" and "main_at s \<noteq> Drained"
  shows "\<exists>a. \<not> is_Publish a \<and> \<not> isl (step v a s)"
proof -
  from c have sh: "shape v s" and g: "gen_ok s" and w: "wg_ok v s" and mo: "mergers_ok v s"
    by (simp_all add: ctrl_def)
  have m: "main_at s = CollectLoop" using assms(2) by (cases "main_at s") simp_all
  have D: "\<And>j. j < length (mergers s) \<Longrightarrow>
      merge_ok v (length (workers s)) (outs_closed s) j (mergers s ! j)"
    using mo by (simp add: mergers_ok_def)
  have oc: "\<And>k. k < length (workers s) \<Longrightarrow> outs_closed s ! k = (workers s ! k = WClosed)"
    using g by (simp add: gen_ok_def)
  have lens: "length (outs_closed s) = length (workers s)"
    "length (amounts s) = length (workers s)"
    "length (mergers s) = n_mergers v (length (workers s))"
    using sh by (simp_all add: shape_def)
  have open_out: "\<not> chOut_closed s" if "j < length (mergers s)" "mergers s ! j \<noteq> MDone" for j
  proof
    assume "chOut_closed s"
    then have "wg s = 0" using w by (auto simp: wg_ok_def)
    then have "mergers s ! j = MDone" using that(1) by (rule released_all_done [OF c])
    then show False using that(2) by simp
  qed
  show ?thesis
  proof (cases "ctx_done s")
    case False
    then have "\<not> is_Publish Timeout \<and> \<not> isl (step v Timeout s)" by simp
    then show ?thesis ..
  next
    case fired: True
    show ?thesis
    proof (cases "g_pc s")
      case GCallback
      then have "\<not> is_Publish Callback \<and> \<not> isl (step v Callback s)" by simp
      then show ?thesis ..
    next
      case GSelect
      then have "\<not> is_Publish Cancel \<and> \<not> isl (step v Cancel s)" using fired g by (simp add: gen_ok_def)
      then show ?thesis ..
    next
      case GReturned
      then have ci: "chIn_closed s" using g by (simp add: gen_ok_def)
      show ?thesis
      proof (cases "\<exists>k<length (workers s).
          workers s ! k = WRange \<or> workers s ! k = WSleep \<or> workers s ! k = WCount")
        case True
        then obtain k where k: "k < length (workers s)"
          and "workers s ! k = WRange \<or> workers s ! k = WSleep \<or> workers s ! k = WCount"
          by blast
        then consider "workers s ! k = WRange" | "workers s ! k = WSleep" | "workers s ! k = WCount"
          by blast
        then show ?thesis
        proof cases
          case 1
          then have "\<not> is_Publish (CloseOut k) \<and> \<not> isl (step v (CloseOut k) s)" using k ci oc [OF k] lens by simp
          then show ?thesis ..
        next
          case 2
          then have "\<not> is_Publish (Sleep k) \<and> \<not> isl (step v (Sleep k) s)" using k by simp
          then show ?thesis ..
        next
          case 3
          then have "\<not> is_Publish (Count k) \<and> \<not> isl (step v (Count k) s)" using k lens by simp
          then show ?thesis ..
        qed
      next
        case False
        then have W: "workers s ! k = WClosed \<or> (\<exists>x. workers s ! k = WSend x)"
          if "k < length (workers s)" for k
          using that by (cases "workers s ! k") auto
        show ?thesis
        proof (cases "\<exists>j<length (mergers s). mergers s ! j \<noteq> MDone")
          case True
          then obtain j where j: "j < length (mergers s)" and nd: "mergers s ! j \<noteq> MDone"
            by blast
          note o = open_out [OF j nd]
          show ?thesis
          proof (cases "mergers s ! j")
            case MDone
            then show ?thesis using nd by simp
          next
            case (MCount k)
            then have "k < length (amounts s)" using D [OF j] j lens
              by (cases v) (simp_all add: n_mergers_def)
            then have "\<not> is_Publish (Tally j) \<and> \<not> isl (step v (Tally j) s)" using MCount j by simp
            then show ?thesis ..
          next
            case (MSend k x)
            show ?thesis
            proof (cases "chOut_cap s \<noteq> 0 \<and> chOut_cap s \<le> length (chOut_buf s)")
              case True
              then have "chOut_buf s \<noteq> []" by auto
              then have "\<not> is_Publish Collect \<and> \<not> isl (step v Collect s)" using m by (cases "chOut_buf s") simp_all
              then show ?thesis ..
            next
              case False
              then have "\<not> is_Publish (Emit j) \<and> \<not> isl (step v (Emit j) s)" using MSend j o m
                by (auto simp: Let_def)
              then show ?thesis ..
            qed
          next
            case (MRange k)
            have k: "k < length (workers s)" and r: "reader v k = j"
              using D [OF j] MRange j lens
              by (cases v; simp add: n_mergers_def reader_def)+
            from W [OF k] show ?thesis
            proof
              assume cl: "workers s ! k = WClosed"
              have "0 < owed v (length (workers s)) (mergers s ! j)"
                using D [OF j] nd by (rule owed_pos)
              then have "1 \<le> wg s" using owed_le_wg [OF w j] by simp
              then have "\<not> is_Publish (Finish j) \<and> \<not> isl (step v (Finish j) s)"
                using MRange j k cl oc [OF k] lens by simp
              then show ?thesis ..
            next
              assume "\<exists>x. workers s ! k = WSend x"
              then obtain x where x: "workers s ! k = WSend x" ..
              then have "\<not> outs_closed s ! k" using oc [OF k] by simp
              then have "\<not> is_Publish (Forward k) \<and> \<not> isl (step v (Forward k) s)" using x k r j MRange by simp
              then show ?thesis ..
            qed
          qed
        next
          case False
          then have "sum_list (map (owed v (length (workers s))) (mergers s)) = 0"
            by (intro all_MDone_no_owed) blast
          then have z: "wg s = 0" using w by (simp add: wg_ok_def)
          show ?thesis
          proof (cases "watcher s")
            case WaWait
            then have "\<not> is_Publish Release \<and> \<not> isl (step v Release s)" using z by simp
            then show ?thesis ..
          next
            case WaClose
            then have "\<not> is_Publish CloseResult \<and> \<not> isl (step v CloseResult s)" using w by (simp add: wg_ok_def)
            then show ?thesis ..
          next
            case WaDone
            then have "chOut_closed s" using w by (simp add: wg_ok_def)
            then have "\<not> is_Publish Collect \<and> \<not> isl (step v Collect s)" using m by (cases "chOut_buf s") simp_all
            then show ?thesis ..
          qed
        qed
      qed
    qed
  qed
qed

lemma progress:
  assumes "exec v sched (init v n) = Inr s" and "main_at s \<noteq> Drained"
  shows "\<exists>a. \<not> isl (step v a s)"
proof -
  have "ctrl v s" using assms(1) ctrl_init by (rule ctrl_exec)
  from progress_step [OF this assms(2)] show ?thesis by blast
qed

text \<open>Every run can be completed. The work left in a state is a number that every step
  but a send on \<open>chIn\<close> makes smaller: the worker ranks weigh five times, so that the
  hand-over to a merging goroutine, which raises the rank of that goroutine, still lowers
  the total; a merging goroutine at output \<open>k\<close> of \<open>n\<close> weighs more than at any later
  output. So from every state that keeps the invariants some schedule without a further
  send on \<open>chIn\<close> leads \<open>main\<close> out of its loop.\<close>

fun wrank :: "worker_pc \<Rightarrow> nat" where
  "wrank (WSend x) = 4"
| "wrank WSleep = 3"
| "wrank WCount = 2"
| "wrank WRange = 1"
| "wrank WClosed = 0"

fun mrank :: "nat \<Rightarrow> merge_pc \<Rightarrow> nat" where
  "mrank n (MSend k x) = 6 + 8 * (n - k)"
| "mrank n (MCount k) = 4 + 8 * (n - k)"
| "mrank n (MRange k) = 2 + 8 * (n - k)"
| "mrank n MDone = 0"

fun grank :: "gen_pc \<Rightarrow> nat" where
  "grank GCallback = 2"
| "grank GSelect = 1"
| "grank GReturned = 0"

fun warank :: "watcher_pc \<Rightarrow> nat" where
  "warank WaWait = 2"
| "warank WaClose = 1"
| "warank WaDone = 0"

definition work_left :: "state \<Rightarrow> nat" where
  "work_left s =
     (if ctx_done s then 0 else 1) + grank (g_pc s)
     + 5 * sum_list (map wrank (workers s))
     + sum_list (map (mrank (length (workers s))) (mergers s))
     + warank (watcher s) + length (chOut_buf s)
     + (if main_at s = Drained then 0 else 1)"

lemma step_work_left:
  assumes "step v a s = Inr s'" "shape v s" "\<not> is_Publish a"
  shows "work_left s' < work_left s"
proof -
  let ?n = "length (workers s)"
  have Uw: "\<And>k p. k < length (workers s) \<Longrightarrow>
      sum_list (map wrank ((workers s)[k := p])) + wrank (workers s ! k)
      = sum_list (map wrank (workers s)) + wrank p"
    by (rule sum_list_map_update)
  have Um: "\<And>m p. m < length (mergers s) \<Longrightarrow>
      sum_list (map (mrank ?n) ((mergers s)[m := p])) + mrank ?n (mergers s ! m)
      = sum_list (map (mrank ?n) (mergers s)) + mrank ?n p"
    by (rule sum_list_map_update)
  have len: "length (outs_closed s) = ?n" using assms(2) by (simp add: shape_def)
  show ?thesis
  proof (cases a)
    case (Publish j)
    then show ?thesis using assms(3) by simp
  next
    case (Forward k)
    then show ?thesis using assms(1)
        Uw [of k WSleep]
        Um [of "reader v k" "MSend k (case workers s ! k of WSend x \<Rightarrow> x | _ \<Rightarrow> 0)"]
      by (auto simp: work_left_def split: if_splits worker_pc.splits)
  next
    case (Sleep k)
    then show ?thesis using assms(1) Uw [of k WRange] Uw [of k WCount]
      by (cases v) (auto simp: work_left_def split: if_splits)
  next
    case (Count k)
    then show ?thesis using assms(1) Uw [of k WRange]
      by (auto simp: work_left_def split: if_splits)
  next
    case (CloseOut k)
    then show ?thesis using assms(1) Uw [of k WClosed]
      by (auto simp: work_left_def split: if_splits)
  next
    case (Emit m)
    then show ?thesis using assms(1)
        Um [of m "MCount (case mergers s ! m of MSend k x \<Rightarrow> k | _ \<Rightarrow> 0)"]
        Um [of m "MRange (case mergers s ! m of MSend k x \<Rightarrow> k | _ \<Rightarrow> 0)"]
      by (cases v) (auto simp: work_left_def Let_def split: if_splits merge_pc.splits)
  next
    case (Tally m)
    then show ?thesis using assms(1)
        Um [of m "MRange (case mergers s ! m of MCount k \<Rightarrow> k | _ \<Rightarrow> 0)"]
      by (auto simp: work_left_def split: if_splits merge_pc.splits)
  next
    case (Finish m)
    then show ?thesis using assms(1) len Um [of m MDone]
        Um [of m "MRange (Suc (case mergers s ! m of MRange k \<Rightarrow> k | _ \<Rightarrow> 0))"]
      by (cases v) (auto simp: work_left_def split: if_splits merge_pc.splits)
  qed (use assms(1) in \<open>auto simp: work_left_def split: if_splits list.splits\<close>)
qed

lemma step_keeps_published:
  "step v a s = Inr s' \<Longrightarrow> \<not> is_Publish a \<Longrightarrow> published s' = published s"
  by (cases a) (auto simp: Let_def split: if_splits worker_pc.splits merge_pc.splits list.splits)

lemma exec_keeps_published:
  "exec v ext s = Inr s' \<Longrightarrow> list_all (\<lambda>a. \<not> is_Publish a) ext \<Longrightarrow> published s' = published s"
proof (induction ext arbitrary: s)
  case Nil
  then show ?case by simp
next
  case (Cons a ext)
  from Cons.prems(1) obtain t where st: "step v a s = Inr t" and ex: "exec v ext t = Inr s'"
    by (auto split: sum.splits)
  from Cons.prems(2) have na: "\<not> is_Publish a" and ne: "list_all (\<lambda>a. \<not> is_Publish a) ext"
    by simp_all
  from Cons.IH [OF ex ne] step_keeps_published [OF st na] show ?case by simp
qed

lemma can_drain:
  assumes "invariant v s"
  shows "\<exists>ext s'. exec v ext s = Inr s' \<and> main_at s' = Drained
                 \<and> list_all (\<lambda>a. \<not> is_Publish a) ext"
  using assms
proof (induction "work_left s" arbitrary: s rule: less_induct)
  case less
  show ?case
  proof (cases "main_at s = Drained")
    case True
    then have "exec v [] s = Inr s \<and> main_at s = Drained \<and> list_all (\<lambda>a. \<not> is_Publish a) []"
      by simp
    then show ?thesis by blast
  next
    case False
    have c: "ctrl v s" using less.prems by (simp add: invariant_def)
    from progress_step [OF c False] obtain a where na: "\<not> is_Publish a"
      and en: "\<not> isl (step v a s)" by blast
    from en obtain t where st: "step v a s = Inr t" by (cases "step v a s") auto
    have it: "invariant v t" using st less.prems by (rule invariant_step)
    have "shape v s" using c by (simp add: ctrl_def)
    then have "work_left t < work_left s" using st na by (intro step_work_left)
    from less.hyps [OF this it] obtain ext s' where
      ex: "exec v ext t = Inr s'" and d: "main_at s' = Drained"
      and l: "list_all (\<lambda>a. \<not> is_Publish a) ext" by blast
    have "exec v (a # ext) s = Inr s' \<and> main_at s' = Drained
          \<and> list_all (\<lambda>a. \<not> is_Publish a) (a # ext)"
      using st ex d l na by simp
    then show ?thesis by blast
  qed
qed


text \<open>A complete run of precode.go in which the two items overtake each other: worker 1
  hands over item 2 before worker 0 hands over item 1.\<close>

definition crossed_run :: "action list" where
  "crossed_run =
     [Publish 0, Callback, Publish 1, Callback,
      Forward 1, Emit 1, Tally 1, Sleep 1,
      Forward 0, Emit 0, Tally 0, Sleep 0,
      Timeout, Cancel,
      CloseOut 0, CloseOut 1, CloseOut 2, CloseOut 3, CloseOut 4,
      Finish 0, Finish 1, Finish 2, Finish 3, Finish 4,
      Release, CloseResult, Collect, Collect, Collect]"

definition crossed_end :: state where
  "crossed_end = projr (exec Concurrent crossed_run (main_init Concurrent))"

lemma crossed_runs:
  "exec Concurrent crossed_run (init Concurrent 5) = Inr crossed_end"
proof -
  have "\<not> isl (exec Concurrent crossed_run (main_init Concurrent))"
    by code_simp
  then show ?thesis by (simp add: crossed_end_def main_init_def NumOut_def)
qed

lemma crossed_end_facts:
  "main_at crossed_end = Drained"
  "published crossed_end = [1, 2]" "collected crossed_end = [2, 1]"
  "inputCount crossed_end = 2" "chOut_buf crossed_end = []"
  by code_simp+

section \<open>The claims\<close>

text \<open>C1: in every run of either draft, for every number of workers and whenever the
  timeout fires and however long the sleeps take, once \<open>main\<close> has left its
  \<open>range chOut\<close> loop the generated count equals the collected count, the generated sum
  equals the collected sum, and the entries of \<open>amounts\<close> sum to the generated count;
  so the three final checks pass.\<close>

theorem tallies_agree_when_drained:
  assumes "exec v sched (init v n) = Inr s" and "main_at s = Drained"
  shows "inputCount s = count_main s \<and> inputSum s = sum_main s
         \<and> sum_list (amounts s) = inputCount s \<and> snd (main_tail s) = Inr 0"
proof -
  have i: "invariant v s" using assms(1) by (rule invariant_run)
  note t = drained_tallies [OF i assms(2)]
  show ?thesis using t by (simp add: main_tail_def verify_eq)
qed

theorem tallies_agree_witness:
  "exec Concurrent (demo_run Concurrent) (init Concurrent 5) = Inr (demo_end Concurrent)
   \<and> main_at (demo_end Concurrent) = Drained
   \<and> inputCount (demo_end Concurrent) = 2 \<and> count_main (demo_end Concurrent) = 2
   \<and> inputSum (demo_end Concurrent) = 3 \<and> sum_main (demo_end Concurrent) = 3
   \<and> sum_list (amounts (demo_end Concurrent)) = 2
   \<and> snd (main_tail (demo_end Concurrent)) = Inr 0"
  using tallies_agree_when_drained [OF demo_runs demo_end_drained, of Concurrent]
    demo_runs [of Concurrent] demo_end_drained [of Concurrent] demo_end_tallies(1-4)
  by simp

text \<open>C2: in every run of either draft in which fewer than \<open>2^63\<close> items are
  generated (so that the \<open>int64\<close> counter of \<open>Generator\<close> does not wrap), every item
  \<open>main\<close> has received from \<open>chOut\<close> is positive and at most the last item sent on
  \<open>chIn\<close>; the items sent are \<open>1, 2, ..., length\<close> in this order; at every moment each
  item sent is in exactly one place (received by \<open>main\<close>, in the buffer of \<open>chOut\<close>,
  with a worker or with a merging goroutine), so none is duplicated or made up; once
  \<open>main\<close> has left its loop the items received are, as a multiset, exactly
  \<open>1, ..., inputCount\<close>; and none is lost on the way: the run can always be continued,
  without any further send on \<open>chIn\<close>, until \<open>main\<close> leaves its loop, and then
  \<open>main\<close> has received exactly the items sent so far.\<close>

theorem collected_items_are_generated:
  assumes "exec v sched (init v n) = Inr s" and "length (published s) < 2 ^ 63"
  shows "(\<forall>x \<in> set (collected s). 0 < sint x \<and> sint x \<le> sint (last (published s)))
         \<and> mset (collected s) \<subseteq># mset (published s)
         \<and> published s = map of_nat [1..<Suc (length (published s))]
         \<and> mset (published s)
             = mset (collected s) + mset (chOut_buf s)
               + sum_list (map heldw (workers s)) + sum_list (map heldm (mergers s))
         \<and> (main_at s = Drained \<longrightarrow>
               unat (inputCount s) = length (published s)
               \<and> mset (collected s) = mset (map of_nat [1..<Suc (unat (inputCount s))]))
         \<and> (\<exists>ext s'. exec v (sched @ ext) (init v n) = Inr s' \<and> main_at s' = Drained
               \<and> published s' = published s
               \<and> unat (inputCount s') = length (published s)
               \<and> mset (collected s') = mset (map of_nat [1..<Suc (unat (inputCount s'))]))"
proof -
  have i: "invariant v s" using assms(1) by (rule invariant_run)
  then have g: "gen_data s" and c: "conserved s" and ct: "ctrl v s"
    by (simp_all add: invariant_def)
  have sub: "mset (collected s) \<subseteq># mset (published s)" by (rule collected_sub_published [OF c])
  then have "set (collected s) \<subseteq> set (published s)" using set_mset_mono by fastforce
  then have b: "\<forall>x \<in> set (collected s). 0 < sint x \<and> sint x \<le> sint (last (published s))"
    using published_bounds [OF g assms(2)] by blast
  have p: "published s = map of_nat [1..<Suc (length (published s))]" by (rule published_eq [OF g])
  have d: "unat (inputCount t) = length (published t)
           \<and> mset (collected t) = mset (map of_nat [1..<Suc (unat (inputCount t))])"
    if it: "invariant v t" and dr: "main_at t = Drained"
      and lt: "length (published t) < 2 ^ 63" for t
  proof -
    have gt: "gen_data t" and ctt: "ctrl v t" using it by (simp_all add: invariant_def)
    have "g_pc t \<noteq> GCallback" by (rule drained_quiescent(4) [OF ctt dr])
    then have "inputCount t = of_nat (length (published t))" using gt by (simp add: gen_data_def)
    then have u: "unat (inputCount t) = length (published t)"
      using lt by (simp add: unat_of_nat_small)
    have "mset (collected t) = mset (published t)" by (rule drained_collected_all [OF it dr])
    then show ?thesis using u published_eq [OF gt] by simp
  qed
  from can_drain [OF i] obtain ext s' where
    ex: "exec v ext s = Inr s'" and dr: "main_at s' = Drained"
    and np: "list_all (\<lambda>a. \<not> is_Publish a) ext" by blast
  have run': "exec v (sched @ ext) (init v n) = Inr s'"
    using assms(1) ex by (simp add: exec_append)
  have ps: "published s' = published s" using ex np by (rule exec_keeps_published)
  have i': "invariant v s'" using run' by (rule invariant_run)
  have lt': "length (published s') < 2 ^ 63" using ps assms(2) by simp
  note d' = d [OF i' dr lt']
  have u': "unat (inputCount s') = length (published s)"
    using d' [THEN conjunct1] ps by simp
  have m': "mset (collected s') = mset (map of_nat [1..<Suc (unat (inputCount s'))])"
    by (rule d' [THEN conjunct2])
  have e: "\<exists>ext s'. exec v (sched @ ext) (init v n) = Inr s' \<and> main_at s' = Drained
               \<and> published s' = published s
               \<and> unat (inputCount s') = length (published s)
               \<and> mset (collected s') = mset (map of_nat [1..<Suc (unat (inputCount s'))])"
    by (rule exI [of _ ext], rule exI [of _ s'], intro conjI) (rule run' dr ps u' m')+
  have cons: "mset (published s)
             = mset (collected s) + mset (chOut_buf s)
               + sum_list (map heldw (workers s)) + sum_list (map heldm (mergers s))"
    using c by (simp add: conserved_def)
  have d0: "main_at s = Drained \<longrightarrow>
               unat (inputCount s) = length (published s)
               \<and> mset (collected s) = mset (map of_nat [1..<Suc (unat (inputCount s))])"
    using d [OF i _ assms(2)] by blast
  show ?thesis by (intro conjI) (rule b sub p cons d0 e)+
qed

theorem collected_items_witness:
  "exec Concurrent crossed_run (init Concurrent 5) = Inr crossed_end
   \<and> length (published crossed_end) < 2 ^ 63
   \<and> main_at crossed_end = Drained
   \<and> published crossed_end = [1, 2]
   \<and> collected crossed_end = [2, 1]
   \<and> unat (inputCount crossed_end) = 2
   \<and> mset (collected crossed_end)
       = mset (map of_nat [1..<Suc (unat (inputCount crossed_end))])
   \<and> exec Sequential (demo_run Sequential) (init Sequential 5) = Inr (demo_end Sequential)
   \<and> main_at (demo_end Sequential) = Drained
   \<and> collected (demo_end Sequential) = [2, 1]
   \<and> mset (collected (demo_end Sequential))
       = mset (map of_nat [1..<Suc (unat (inputCount (demo_end Sequential)))])"
proof -
  have l: "length (published crossed_end) < 2 ^ 63"
    by (simp add: crossed_end_facts)
  have l': "length (published (demo_end Sequential)) < 2 ^ 63"
    by (simp add: demo_end_items)
  note c = collected_items_are_generated [OF crossed_runs l]
  note q = collected_items_are_generated [OF demo_runs l']
  have dc: "main_at crossed_end = Drained \<longrightarrow>
      unat (inputCount crossed_end) = length (published crossed_end)
      \<and> mset (collected crossed_end)
          = mset (map of_nat [1..<Suc (unat (inputCount crossed_end))])"
    by (rule c [THEN conjunct2, THEN conjunct2, THEN conjunct2, THEN conjunct2, THEN conjunct1])
  have dq: "main_at (demo_end Sequential) = Drained \<longrightarrow>
      unat (inputCount (demo_end Sequential)) = length (published (demo_end Sequential))
      \<and> mset (collected (demo_end Sequential))
          = mset (map of_nat [1..<Suc (unat (inputCount (demo_end Sequential)))])"
    by (rule q [THEN conjunct2, THEN conjunct2, THEN conjunct2, THEN conjunct2, THEN conjunct1])
  have c1: "unat (inputCount crossed_end) = 2"
    using dc by (simp add: crossed_end_facts)
  have c2: "mset (collected crossed_end)
          = mset (map of_nat [1..<Suc (unat (inputCount crossed_end))])"
    using dc crossed_end_facts(1) by blast
  have q2: "mset (collected (demo_end Sequential))
          = mset (map of_nat [1..<Suc (unat (inputCount (demo_end Sequential)))])"
    using dq demo_end_drained [of Sequential] by blast
  show ?thesis
    by (intro conjI)
      (rule crossed_runs l crossed_end_facts c1 c2 demo_runs demo_end_drained demo_end_items q2)+
qed

text \<open>C3 fails on precode1.go (and on the unnamed draft, the same code): with item 1
  in the hands of worker 1, its send on \<open>outs[1]\<close> is not enabled, because the
  only merging goroutine is in \<open>range outs[0]\<close> and \<open>outs[0]\<close> is
  still open. In precode.go the same schedule runs, and merging goroutine 1 holds the item.\<close>

theorem sequential_merge_stalls_worker:
  "isl (exec Sequential stalled_run (main_init Sequential))
   \<and> projl (exec Sequential stalled_run (main_init Sequential)) = Blocked
   \<and> \<not> isl (exec Sequential [Publish 1, Callback] (main_init Sequential))
   \<and> workers (projr (exec Sequential [Publish 1, Callback] (main_init Sequential))) ! 1 = WSend 1
   \<and> mergers (projr (exec Sequential [Publish 1, Callback] (main_init Sequential))) = [MRange 0]
   \<and> \<not> outs_closed (projr (exec Sequential [Publish 1, Callback] (main_init Sequential))) ! 0
   \<and> \<not> isl (exec Concurrent stalled_run (main_init Concurrent))
   \<and> mergers (projr (exec Concurrent stalled_run (main_init Concurrent))) ! 1 = MSend 1 1"
  by (intro conjI; code_simp)

text \<open>C4: in every run of either draft \<open>close(chOut)\<close> is executed at most
  once, and \<open>chOut\<close> is closed exactly when it has been executed once; whenever
  \<open>chOut\<close> is closed the WaitGroup counter is zero, every merging goroutine has
  finished and every worker has closed its output; \<open>main\<close> leaves its loop only
  on the closed channel; and no schedule whatever ends in a panic, so there is no send on
  the closed \<open>chOut\<close> (nor any other send on or close of a closed channel).\<close>

theorem result_channel_closed_once:
  assumes "exec v sched (init v n) = Inr s"
  shows "count_list sched CloseResult \<le> 1
         \<and> (chOut_closed s \<longleftrightarrow> count_list sched CloseResult = 1)
         \<and> (chOut_closed s \<longrightarrow>
               wg s = 0 \<and> (\<forall>m<length (mergers s). mergers s ! m = MDone)
               \<and> (\<forall>k<length (workers s). workers s ! k = WClosed))
         \<and> (main_at s = Drained \<longrightarrow> chOut_closed s)
         \<and> (\<forall>sched' p. exec v sched' (init v n) \<noteq> Inl (Panic p))"
proof -
  have c: "ctrl v s" using assms ctrl_init by (rule ctrl_exec)
  then have w: "wg_ok v s" by (simp add: ctrl_def)
  have n: "count_list sched CloseResult = (if watcher s = WaDone then 1 else 0)"
    using assms by (rule close_result_count)
  have z: "wg s = 0" if "chOut_closed s" using that w by (auto simp: wg_ok_def)
  have np: "exec v sched' (init v n) \<noteq> Inl (Panic p)" for sched' p
    by (rule no_panic_exec [OF ctrl_init])
  show ?thesis
    using n w z released_all_done [OF c] released_all_closed(2) [OF c] np
    by (auto simp: wg_ok_def)
qed

theorem result_channel_closed_witness:
  "exec Concurrent (demo_run Concurrent) (init Concurrent 5) = Inr (demo_end Concurrent)
   \<and> count_list (demo_run Concurrent) CloseResult = 1
   \<and> chOut_closed (demo_end Concurrent)
   \<and> wg (demo_end Concurrent) = 0
   \<and> main_at (demo_end Concurrent) = Drained"
  using result_channel_closed_once [OF demo_runs, of Concurrent]
    demo_runs [of Concurrent] demo_end_closed [of Concurrent] demo_end_drained [of Concurrent]
  by simp

text \<open>C5, as the code has it: in every run and for every worker \<open>k\<close>, the
  items sent on \<open>outs[k]\<close> are the items the worker received from
  \<open>chIn\<close>, unchanged and in the same order, but for the one it holds at
  \<open>out <- i\<close>; it has received one item for each \<open>Publish k\<close> and
  sent one for each \<open>Forward k\<close>; every send is followed by one
  \<open>time.Sleep\<close>, so the sleeps that have returned are the sends, less the one in
  progress; the worker closes its output once, only when \<open>chIn\<close> is closed, and
  has then sent everything it received. In precode1.go the worker increments
  \<open>amounts[k]\<close> once after each sleep and nothing else changes that entry; in
  precode.go the worker never increments anything, and \<open>amounts[k]\<close> is the
  number of \<open>amounts[i]++\<close> steps of merging goroutine \<open>k\<close>, one for
  each item of \<open>outs[k]\<close> once it is on \<open>chOut\<close>.\<close>

theorem worker_contract:
  assumes "exec v sched (init v n) = Inr s" and "k < n"
  shows "consumed s ! k = forwarded s ! k @ in_hand (workers s ! k)
         \<and> length (consumed s ! k) = count_list sched (Publish k)
         \<and> length (forwarded s ! k) = count_list sched (Forward k)
         \<and> count_list sched (Forward k)
             = count_list sched (Sleep k) + (if workers s ! k = WSleep then 1 else 0)
         \<and> (v = Sequential \<longrightarrow>
               count_list sched (Sleep k)
               = count_list sched (Count k) + (if workers s ! k = WCount then 1 else 0)
               \<and> amounts s ! k = of_nat (count_list sched (Count k)))
         \<and> (v = Concurrent \<longrightarrow>
               count_list sched (Count k) = 0
               \<and> count_list sched (Forward k)
                   = count_list sched (Tally k) + busy_m (mergers s ! k)
               \<and> amounts s ! k = of_nat (count_list sched (Tally k)))
         \<and> count_list sched (CloseOut k) = (if workers s ! k = WClosed then 1 else 0)
         \<and> (outs_closed s ! k \<longleftrightarrow> workers s ! k = WClosed)
         \<and> (workers s ! k = WClosed \<longrightarrow> chIn_closed s \<and> forwarded s ! k = consumed s ! k)"
proof -
  have i: "invariant v s" using assms(1) by (rule invariant_run)
  have n: "length (workers s) = n" using assms(1) by (rule run_length_workers)
  then have k: "k < length (workers s)" using assms(2) by simp
  have h: "consumed s ! k = forwarded s ! k @ in_hand (workers s ! k)"
    using i k by (simp add: invariant_def hist_ok_def)
  have g: "outs_closed s ! k \<longleftrightarrow> workers s ! k = WClosed"
    and g': "workers s ! k = WClosed \<longrightarrow> chIn_closed s"
    using i k by (auto simp: invariant_def ctrl_def gen_ok_def)
  note c = worker_counts [OF assms]
  have sq: "count_list sched (Sleep k)
            = count_list sched (Count k) + (if workers s ! k = WCount then 1 else 0)
            \<and> amounts s ! k = of_nat (count_list sched (Count k))" if v: "v = Sequential"
  proof -
    note cs = worker_counts_Sequential [OF assms [unfolded v]]
    have "amounts s ! k = of_nat (length (forwarded s ! k)) - pendw (workers s ! k)"
      using i k v by (simp add: invariant_def tally_ok_def)
    then have "amounts s ! k = of_nat (count_list sched (Count k))"
      using c cs by (auto simp: pendw_cases split: if_splits)
    then show ?thesis using cs by simp
  qed
  have cc: "count_list sched (Count k) = 0
            \<and> count_list sched (Forward k) = count_list sched (Tally k) + busy_m (mergers s ! k)
            \<and> amounts s ! k = of_nat (count_list sched (Tally k))" if v: "v = Concurrent"
  proof -
    note cs = worker_counts_Concurrent [OF assms [unfolded v]]
    have "amounts s ! k = of_nat (length (forwarded s ! k)) - pendm (mergers s ! k)"
      using i k v by (simp add: invariant_def tally_ok_def)
    then have "amounts s ! k = of_nat (count_list sched (Tally k))"
      using cs by (simp add: pendm_busy_m)
    then show ?thesis using cs c by simp
  qed
  show ?thesis using h g g' c sq cc by (auto simp: in_hand.simps)
qed

theorem worker_contract_witness:
  "exec Sequential (demo_run Sequential) (init Sequential 5) = Inr (demo_end Sequential)
   \<and> (1::nat) < 5
   \<and> consumed (demo_end Sequential) ! 1 = [1]
   \<and> forwarded (demo_end Sequential) ! 1 = [1]
   \<and> count_list (demo_run Sequential) (Publish 1) = 1
   \<and> count_list (demo_run Sequential) (Forward 1) = 1
   \<and> count_list (demo_run Sequential) (Sleep 1) = 1
   \<and> count_list (demo_run Sequential) (Count 1) = 1
   \<and> amounts (demo_end Sequential) ! 1 = 1
   \<and> workers (demo_end Sequential) ! 1 = WClosed
   \<and> outs_closed (demo_end Sequential) ! 1"
proof -
  have k: "(1::nat) < 5" by simp
  from worker_contract [OF demo_runs k, of Sequential]
  show ?thesis using demo_runs [of Sequential] by (simp add: demo_end_worker)
qed

text \<open>C5 as stated fails: after \<open>Generator\<close> has handed item 1 to worker 0
  and the worker has sent it on \<open>outs[0]\<close>, the item is with the merging
  goroutine although no \<open>time.Sleep\<close> of the worker has returned: the worker is
  only now at its sleep, in both drafts. In precode.go the worker has no counter step at all
  (\<open>Count 0\<close> is not enabled after the sleep); \<open>amounts[0]\<close> becomes
  1 by the \<open>Tally\<close> step of merging goroutine 0.\<close>

theorem worker_sends_before_sleeping:
  "\<not> isl (exec Concurrent early_run (main_init Concurrent))
   \<and> forwarded (projr (exec Concurrent early_run (main_init Concurrent))) ! 0 = [1]
   \<and> mergers (projr (exec Concurrent early_run (main_init Concurrent))) ! 0 = MSend 0 1
   \<and> workers (projr (exec Concurrent early_run (main_init Concurrent))) ! 0 = WSleep
   \<and> count_list early_run (Sleep 0) = 0
   \<and> \<not> isl (exec Sequential early_run (main_init Sequential))
   \<and> forwarded (projr (exec Sequential early_run (main_init Sequential))) ! 0 = [1]
   \<and> workers (projr (exec Sequential early_run (main_init Sequential))) ! 0 = WSleep
   \<and> isl (exec Concurrent (early_run @ [Sleep 0, Count 0]) (main_init Concurrent))
   \<and> projl (exec Concurrent (early_run @ [Sleep 0, Count 0]) (main_init Concurrent)) = Blocked
   \<and> \<not> isl (exec Concurrent (early_run @ [Sleep 0]) (main_init Concurrent))
   \<and> \<not> isl (exec Concurrent (early_run @ [Emit 0, Tally 0]) (main_init Concurrent))
   \<and> amounts (projr (exec Concurrent (early_run @ [Emit 0, Tally 0]) (main_init Concurrent))) ! 0 = 1
   \<and> count_list (demo_run Concurrent) (Count 0) = 0
   \<and> count_list (demo_run Concurrent) (Tally 0) = 1
   \<and> amounts (demo_end Concurrent) ! 0 = 1"
  by (intro conjI; code_simp)

text \<open>C6: in every run the items sent on \<open>chIn\<close> are \<open>1, 2, ...,
  length\<close> in this order, one for each \<open>Publish\<close> of the schedule; the
  callback has run for every item sent but the last one when \<open>Generator\<close> stands
  between the send and \<open>fn(i)\<close>, and for every item otherwise, so no send
  happens before the callback of the previous item; \<open>inputCount\<close> is the number
  of callbacks run and \<open>inputSum\<close> the sum of the items they were run on, which
  are the first items sent; the next callback gets the item sent last. Whenever
  \<open>Generator\<close> is not between a send and its callback, \<open>inputCount\<close>
  is the number of the items sent and \<open>inputSum\<close> their sum.\<close>

theorem generator_publishes_in_order:
  assumes "exec v sched (init v n) = Inr s"
  shows "published s = map of_nat [1..<Suc (length (published s))]
         \<and> length (published s) = length (filter is_Publish sched)
         \<and> length (published s) = count_list sched Callback + (if g_pc s = GCallback then 1 else 0)
         \<and> inputCount s = of_nat (count_list sched Callback)
         \<and> inputSum s = sum_list (take (count_list sched Callback) (published s))
         \<and> (g_pc s = GCallback \<longrightarrow> g_i s = last (published s))
         \<and> (g_pc s \<noteq> GCallback \<longrightarrow>
               inputCount s = of_nat (length (published s))
               \<and> inputSum s = sum_list (published s))"
proof -
  let ?c = "count_list sched Callback"
  have g: "gen_data s" using invariant_run [OF assms] by (simp add: invariant_def)
  note c = generator_counts [OF assms]
  have p: "published s = map of_nat [1..<Suc (length (published s))]" by (rule published_eq [OF g])
  show ?thesis
  proof (cases "g_pc s = GCallback")
    case False
    then show ?thesis using g c p by (simp add: gen_data_def)
  next
    case True
    then have l: "length (published s) = Suc ?c" using c by simp
    then have ne: "published s \<noteq> []" by auto
    have "last (published s) = published s ! ?c" using last_conv_nth [OF ne] l by simp
    also have "\<dots> = of_nat (Suc ?c)" using g l by (simp add: gen_data_def)
    finally have la: "last (published s) = of_nat (Suc ?c)" .
    have gi: "g_i s = of_nat (Suc ?c)" using g True l by (simp add: gen_data_def)
    have pc: "published s ! ?c = of_nat (Suc ?c)" using g l by (simp add: gen_data_def)
    have e1: "inputSum s + g_i s = sum_list (published s)" using g True by (auto simp: gen_data_def)
    have "sum_list (published s) = sum_list (take (Suc ?c) (published s))" using l by simp
    also have "\<dots> = sum_list (take ?c (published s)) + published s ! ?c"
      using l by (intro sum_list_take_Suc) simp
    finally have "inputSum s + g_i s = sum_list (take ?c (published s)) + g_i s"
      using e1 pc gi by (simp only:)
    then have "inputSum s = sum_list (take ?c (published s))" by (simp only: add_right_cancel)
    moreover have "inputCount s = of_nat ?c" using g True l by (simp add: gen_data_def)
    ultimately show ?thesis using True c p gi la by simp
  qed
qed

theorem generator_publishes_witness:
  "exec Sequential (demo_run Sequential) (init Sequential 5) = Inr (demo_end Sequential)
   \<and> published (demo_end Sequential) = [1, 2]
   \<and> length (filter is_Publish (demo_run Sequential)) = 2
   \<and> count_list (demo_run Sequential) Callback = 2
   \<and> inputCount (demo_end Sequential) = 2
   \<and> inputSum (demo_end Sequential) = 3"
  using generator_publishes_in_order [OF demo_runs, of Sequential]
    demo_runs [of Sequential] demo_end_generator [of Sequential]
  by (simp add: demo_end_items demo_run_counts demo_end_tallies)

text \<open>C7: in every run \<open>Generator\<close> takes the \<open>ctx.Done()\<close> branch at most once;
  \<open>chIn\<close> is closed exactly when it has taken it, which is exactly when \<open>Generator\<close>
  has returned, and only after the timeout has fired; nothing of \<open>Generator\<close> follows
  that branch in the schedule: no second close, no callback and no send on \<open>chIn\<close>.
  Whenever the timeout has fired and \<open>Generator\<close> is at its \<open>select\<close>, the branch
  is enabled and leads, without panic, to the state with \<open>chIn\<close> closed and
  \<open>Generator\<close> returned; when it is between a send and its callback, the callback and
  then the branch do so.\<close>

theorem generator_cancellation:
  assumes "exec v sched (init v n) = Inr s"
  shows "count_list sched Cancel \<le> 1
         \<and> (chIn_closed s \<longleftrightarrow> count_list sched Cancel = 1)
         \<and> (g_pc s = GReturned \<longleftrightarrow> chIn_closed s)
         \<and> (chIn_closed s \<longrightarrow> ctx_done s)
         \<and> (\<forall>pre post. sched = pre @ Cancel # post \<longrightarrow>
               (\<forall>a \<in> set post. a \<noteq> Cancel \<and> a \<noteq> Callback \<and> \<not> is_Publish a))
         \<and> (ctx_done s \<and> g_pc s = GSelect \<longrightarrow>
               step v Cancel s = Inr (s\<lparr>chIn_closed := True, g_pc := GReturned\<rparr>))
         \<and> (ctx_done s \<and> g_pc s = GCallback \<longrightarrow>
               (\<exists>s'. exec v [Callback, Cancel] s = Inr s' \<and> chIn_closed s'
                     \<and> g_pc s' = GReturned \<and> inputCount s' = inputCount s + 1))"
proof -
  have g: "chIn_closed s \<longleftrightarrow> g_pc s = GReturned"
    using invariant_run [OF assms] by (simp add: invariant_def ctrl_def gen_ok_def)
  note c = generator_counts [OF assms]
  have a: "\<forall>a \<in> set post. a \<noteq> Cancel \<and> a \<noteq> Callback \<and> \<not> is_Publish a"
    if "sched = pre @ Cancel # post" for pre post
    using assms unfolding that by (rule nothing_after_cancel)
  show ?thesis using g c a by auto
qed

theorem generator_cancellation_witness:
  "exec Concurrent (demo_run Concurrent) (init Concurrent 5) = Inr (demo_end Concurrent)
   \<and> count_list (demo_run Concurrent) Cancel = 1
   \<and> chIn_closed (demo_end Concurrent)
   \<and> g_pc (demo_end Concurrent) = GReturned
   \<and> ctx_done (demo_end Concurrent)"
  using generator_cancellation [OF demo_runs, of Concurrent]
    demo_runs [of Concurrent] demo_end_generator [of Concurrent]
  by simp

text \<open>C8: the checks at the end of \<open>main\<close> run in the order sums, counts,
  split. The first one that fails ends the run with its own diagnostic
  (\<open>log.Fatalf\<close>), and nothing follows it; the third check, a loop that
  subtracts each entry of \<open>amounts\<close>
  from \<open>inputCount\<close> and compares with zero, fails exactly when the entries do not sum
  to \<open>inputCount\<close> (in 64-bit arithmetic); when all three hold the run ends normally.\<close>

theorem verify_checks_in_order:
  "verify iSum sm iCount cnt amts =
     (if iSum \<noteq> sm then Inl (SumsDiffer iSum sm)
      else if iCount \<noteq> cnt then Inl (CountsDiffer iCount cnt)
      else if sum_list amts \<noteq> iCount then Inl SplitWrong
      else Inr 0)"
  by (rule verify_eq)

text \<open>C10: the third check consumes \<open>inputCount\<close>: when the checks pass, the
  variable ends at zero, which is its printed value minus the sum of \<open>amounts\<close>; the
  report, printed before the checks, shows the value the variable had before. The final
  value differs from the printed one whenever at least one item was generated.\<close>

theorem verify_consumes_inputCount:
  assumes "snd (main_tail s) = Inr r"
  shows "shown_inputCount (fst (main_tail s)) = inputCount s \<and> r = 0
         \<and> r = inputCount s - sum_list (amounts s)
         \<and> (inputCount s \<noteq> 0 \<longrightarrow> r \<noteq> inputCount s)"
  using assms by (auto simp: main_tail_def verify_eq split: if_splits)

theorem verify_consumes_inputCount_witness:
  "snd (main_tail (demo_end Sequential)) = Inr 0
   \<and> shown_inputCount (fst (main_tail (demo_end Sequential))) = 2
   \<and> inputCount (demo_end Sequential) = 2
   \<and> (0::int64) \<noteq> 2"
proof -
  have v: "snd (main_tail (demo_end Sequential)) = Inr 0"
    by (simp add: main_tail_def verify_eq demo_end_tallies)
  from verify_consumes_inputCount [OF v] show ?thesis
    using v by (simp add: demo_end_tallies)
qed

end
